theory Spec2Isabelle
  imports Main "HOL-Library.List_Lexorder"
begin

section \<open>Strings, dictionaries and errors\<close>

text \<open>
  A Python \<open>str\<close> is a sequence of Unicode code points and \<open>len\<close> counts code points,
  so a string is a list of code-point numbers. The symbols of the alphabet lie outside
  ASCII; they are written by their numbers:
  U+0300 = 768 (combining grave), U+0301 = 769 (combining acute),
  U+0304 = 772 (combining macron), U+039B = 923, U+0413 = 1043, U+0418 = 1048,
  U+041F = 1055, U+2200 = 8704, U+30B3 = 12467, U+30F2 = 12530, U+FF9A = 65434.
\<close>

type_synonym codepoint = nat
type_synonym ustr = "codepoint list"

definition ascii :: "string \<Rightarrow> ustr" where
  "ascii cs = map of_char cs"

datatype py_error = IndexError | KeyError | TypeError

definition bindE :: "py_error + 'a \<Rightarrow> ('a \<Rightarrow> py_error + 'b) \<Rightarrow> py_error + 'b" where
  "bindE m f = (case m of Inl e \<Rightarrow> Inl e | Inr x \<Rightarrow> f x)"

text \<open>\<open>s[i]\<close> for a non-negative index: IndexError beyond the end.\<close>

definition str_index :: "'a list \<Rightarrow> nat \<Rightarrow> py_error + 'a" where
  "str_index s i = (if i < length s then Inr (s ! i) else Inl IndexError)"

text \<open>
  A \<open>dict\<close> keeps its keys in insertion order: it is the list of its items, with keys
  pairwise distinct. \<open>k in d\<close>, \<open>d[k]\<close> (KeyError on a missing key) and \<open>d.get(k)\<close>:
\<close>

definition dict_contains :: "('k \<times> 'v) list \<Rightarrow> 'k \<Rightarrow> bool" where
  "dict_contains d k = (map_of d k \<noteq> None)"

definition dict_getitem :: "('k \<times> 'v) list \<Rightarrow> 'k \<Rightarrow> py_error + 'v" where
  "dict_getitem d k = (case map_of d k of None \<Rightarrow> Inl KeyError | Some v \<Rightarrow> Inr v)"

definition dict_get :: "('k \<times> 'v) list \<Rightarrow> 'k \<Rightarrow> 'v option" where
  "dict_get d k = map_of d k"

text \<open>
  \<open>str.upper()\<close> and \<open>str.lower()\<close>, code point by code point. The converter uses the
  upper-cased text only as a key of the mapping table, whose keys are ASCII capitals.
  The code points whose upper case is an ASCII capital are \<open>a\<close>..\<open>z\<close>, U+0131
  (dotless i, to \<open>I\<close>) and U+017F (long s, to \<open>S\<close>); the upper case of every other
  code point contains a code point that is no ASCII capital, as the code point itself,
  which stands for it here. \<open>lower_cp\<close> is Python's \<open>lower\<close> on ASCII, U+0131 and U+017F.
\<close>

definition upper_cp :: "codepoint \<Rightarrow> codepoint" where
  "upper_cp c = (if 97 \<le> c \<and> c \<le> 122 then c - 32
                 else if c = 305 then 73
                 else if c = 383 then 83
                 else c)"

definition lower_cp :: "codepoint \<Rightarrow> codepoint" where
  "lower_cp c = (if 65 \<le> c \<and> c \<le> 90 then c + 32 else c)"

definition str_upper :: "ustr \<Rightarrow> ustr" where
  "str_upper s = map upper_cp s"

definition str_lower :: "ustr \<Rightarrow> ustr" where
  "str_lower s = map lower_cp s"

section \<open>The forward converter (alphabet\_converter)\<close>

definition MAPPING :: "(ustr \<times> ustr) list" where
  "MAPPING =
    [(ascii ''CH'', ascii ''T''),
     (ascii ''SH'', [65434]),
     (ascii ''A'', [86, 769]),
     (ascii ''B'', [1043]),
     (ascii ''C'', [12530]),
     (ascii ''D'', [12467]),
     (ascii ''E'', ascii ''H''),
     (ascii ''F'', [8704]),
     (ascii ''G'', ascii ''7''),
     (ascii ''H'', ascii ''X''),
     (ascii ''I'', [1048]),
     (ascii ''J'', [65434, 768]),
     (ascii ''K'', [12530]),
     (ascii ''L'', ascii ''Z''),
     (ascii ''M'', [1055]),
     (ascii ''N'', ascii ''L''),
     (ascii ''O'', [86, 768]),
     (ascii ''P'', ascii ''F''),
     (ascii ''Q'', [12530]),
     (ascii ''R'', ascii ''Z''),
     (ascii ''S'', [923]),
     (ascii ''T'', ascii ''E''),
     (ascii ''U'', [86, 772]),
     (ascii ''V'', ascii ''V''),
     (ascii ''W'', ascii ''V''),
     (ascii ''X'', ascii ''A''),
     (ascii ''Y'', ascii ''K''),
     (ascii ''Z'', ascii ''A'')]"

text \<open>
  One iteration of the \<open>while\<close> loop of \<open>convert_text\<close>, from position \<open>i\<close> with the
  pieces \<open>out\<close> emitted so far: the digraph test first (its result \<open>Some\<close> is the
  \<open>continue\<close>), then the single character.
\<close>

definition convert_step :: "ustr \<Rightarrow> nat \<Rightarrow> ustr list \<Rightarrow> py_error + (nat \<times> ustr list)" where
  "convert_step s i out =
     bindE (if i + 1 < length s
            then bindE (str_index s i) (\<lambda>a.
                 bindE (str_index s (i + 1)) (\<lambda>b.
                   let two = str_upper [a, b] in
                   if dict_contains MAPPING two
                   then bindE (dict_getitem MAPPING two) (\<lambda>v. Inr (Some (i + 2, out @ [v])))
                   else Inr None))
            else Inr None)
       (\<lambda>digraph. case digraph of
            Some st \<Rightarrow> Inr st
          | None \<Rightarrow>
              bindE (str_index s i) (\<lambda>ch.
                let up = str_upper [ch] in
                if dict_contains MAPPING up
                then bindE (dict_getitem MAPPING up) (\<lambda>v. Inr (i + 1, out @ [v]))
                else Inr (i + 1, out @ [[ch]])))"

function convert_loop :: "ustr \<Rightarrow> nat \<Rightarrow> ustr list \<Rightarrow> py_error + ustr list" where
  "convert_loop s i out =
     (if i < length s
      then (case convert_step s i out of
              Inl e \<Rightarrow> Inl e
            | Inr (i', out') \<Rightarrow> convert_loop s i' out')
      else Inr out)"
  by pat_completeness auto
termination
proof (relation "measure (\<lambda>(s, i, out). length s - i)")
  show "wf (measure (\<lambda>(s, i, out). length s - i))"
    by simp
next
  fix s :: ustr and i :: nat and out :: "ustr list" and x2 x y
  assume "i < length s" and "convert_step s i out = Inr x2" and "(x, y) = x2"
  then have "i < x"
    by (auto simp: convert_step_def bindE_def str_index_def Let_def
             split: if_splits sum.splits option.splits)
  with \<open>i < length s\<close>
  show "((s, x, y), (s, i, out)) \<in> measure (\<lambda>(s, i, out). length s - i)"
    by simp
qed

definition convert_text :: "ustr \<Rightarrow> py_error + ustr" where
  "convert_text s = bindE (convert_loop s 0 []) (\<lambda>out. Inr (concat out))"

section \<open>The reverse converter (alphabet\_reverse)\<close>

definition FORWARD :: "(ustr \<times> ustr) list" where
  "FORWARD =
    [(ascii ''CH'', ascii ''T''),
     (ascii ''SH'', [65434]),
     (ascii ''A'', [86, 769]),
     (ascii ''B'', [1043]),
     (ascii ''C'', [12530]),
     (ascii ''D'', [12467]),
     (ascii ''E'', ascii ''H''),
     (ascii ''F'', [8704]),
     (ascii ''G'', ascii ''7''),
     (ascii ''H'', ascii ''X''),
     (ascii ''I'', [1048]),
     (ascii ''J'', [65434, 768]),
     (ascii ''K'', [12530]),
     (ascii ''L'', ascii ''Z''),
     (ascii ''M'', [1055]),
     (ascii ''N'', ascii ''L''),
     (ascii ''O'', [86, 768]),
     (ascii ''P'', ascii ''F''),
     (ascii ''Q'', [12530]),
     (ascii ''R'', ascii ''Z''),
     (ascii ''S'', [923]),
     (ascii ''T'', ascii ''E''),
     (ascii ''U'', [86, 772]),
     (ascii ''V'', ascii ''V''),
     (ascii ''W'', ascii ''V''),
     (ascii ''X'', ascii ''A''),
     (ascii ''Y'', ascii ''K''),
     (ascii ''Z'', ascii ''A'')]"

definition PREFERENCES :: "(ustr \<times> ustr) list" where
  "PREFERENCES =
    [([12530], ascii ''K''),
     (ascii ''Z'', ascii ''L''),
     (ascii ''A'', ascii ''Z''),
     (ascii ''V'', ascii ''V'')]"

text \<open>
  \<open>rev.setdefault(sym, []).append(latin)\<close>: a symbol already in the dict gets the token
  appended to its list, in place; a new symbol is inserted last with a one-token list.
\<close>

fun setdefault_append :: "('k \<times> 'v list) list \<Rightarrow> 'k \<Rightarrow> 'v \<Rightarrow> ('k \<times> 'v list) list" where
  "setdefault_append [] symbol latin = [(symbol, [latin])]"
| "setdefault_append ((k, vs) # d) symbol latin =
     (if k = symbol then (k, vs @ [latin]) # d
      else (k, vs) # setdefault_append d symbol latin)"

definition build_reverse_map :: "('v \<times> 'k) list \<Rightarrow> ('k \<times> 'v list) list" where
  "build_reverse_map forward_map =
     fold (\<lambda>(latin, symbol) d. setdefault_append d symbol latin) forward_map []"

definition REVERSE :: "(ustr \<times> ustr list) list" where
  "REVERSE = build_reverse_map FORWARD"

text \<open>
  \<open>sorted(xs, key=len, reverse=True)\<close>: Python's sort is stable, and with
  \<open>reverse=True\<close> it stays stable (the list is reversed, sorted ascending and reversed
  again), so elements of equal length keep their order.
\<close>

definition sorted_len_reverse :: "'a list list \<Rightarrow> 'a list list" where
  "sorted_len_reverse xs = rev (sort_key length (rev xs))"

definition SYMBOLS_SORTED :: "ustr list" where
  "SYMBOLS_SORTED = sorted_len_reverse (map fst REVERSE)"

text \<open>
  The \<open>preferences\<close> argument is \<open>None\<close> or a dict; \<open>None\<close> and the empty dict are falsy.
  \<open>in\<close> and subscription on \<open>None\<close> raise TypeError.
\<close>

type_synonym prefs = "(ustr \<times> ustr) list option"

definition truthy :: "prefs \<Rightarrow> bool" where
  "truthy preferences = (case preferences of None \<Rightarrow> False | Some d \<Rightarrow> d \<noteq> [])"

definition prefs_contains :: "prefs \<Rightarrow> ustr \<Rightarrow> py_error + bool" where
  "prefs_contains preferences k =
     (case preferences of None \<Rightarrow> Inl TypeError | Some d \<Rightarrow> Inr (dict_contains d k))"

definition prefs_getitem :: "prefs \<Rightarrow> ustr \<Rightarrow> py_error + ustr" where
  "prefs_getitem preferences k =
     (case preferences of None \<Rightarrow> Inl TypeError | Some d \<Rightarrow> dict_getitem d k)"

text \<open>
  \<open>choose_latin_for_symbol\<close>. The condition
  \<open>preferences and symbol in preferences and preferences[symbol] in options\<close>
  is evaluated left to right and stops at the first false operand.
  \<open>sorted(options)\<close> orders strings by code points, lexicographically.
\<close>

definition choose_latin_for_symbol :: "ustr \<Rightarrow> prefs \<Rightarrow> py_error + ustr option" where
  "choose_latin_for_symbol symbol preferences =
     (case dict_get REVERSE symbol of
        None \<Rightarrow> Inr None
      | Some options \<Rightarrow>
          if options = [] then Inr None
          else if length options = 1
          then bindE (str_index options 0) (\<lambda>v. Inr (Some v))
          else bindE (if truthy preferences
                      then bindE (prefs_contains preferences symbol) (\<lambda>c.
                             if c
                             then bindE (prefs_getitem preferences symbol) (\<lambda>p.
                                    Inr (p \<in> set options))
                             else Inr False)
                      else Inr False)
                 (\<lambda>use_pref.
                    if use_pref
                    then bindE (prefs_getitem preferences symbol) (\<lambda>p. Inr (Some p))
                    else bindE (str_index (sort options) 0) (\<lambda>v. Inr (Some v))))"

text \<open>\<open>s.startswith(sym, i)\<close> for \<open>0 \<le> i \<le> len(s)\<close>.\<close>

definition startswith :: "'a list \<Rightarrow> 'a list \<Rightarrow> nat \<Rightarrow> bool" where
  "startswith s smb i = (take (length smb) (drop i s) = smb)"

text \<open>
  The \<open>for sym in SYMBOLS_SORTED\<close> loop stops at the first symbol found at position \<open>i\<close>
  (\<open>break\<close>); \<open>None\<close> is \<open>matched == False\<close>.
\<close>

definition first_match :: "ustr \<Rightarrow> nat \<Rightarrow> ustr option" where
  "first_match s i = find (\<lambda>smb. startswith s smb i) SYMBOLS_SORTED"

definition reverse_step :: "ustr \<Rightarrow> prefs \<Rightarrow> nat \<Rightarrow> ustr list \<Rightarrow> py_error + (nat \<times> ustr list)" where
  "reverse_step s preferences i out =
     (case first_match s i of
        Some smb \<Rightarrow>
          bindE (choose_latin_for_symbol smb preferences) (\<lambda>latin.
            case latin of
              None \<Rightarrow> Inr (i + length smb, out @ [smb])
            | Some l \<Rightarrow> Inr (i + length smb, out @ [l]))
      | None \<Rightarrow> bindE (str_index s i) (\<lambda>c. Inr (i + 1, out @ [[c]])))"

function reverse_loop :: "ustr \<Rightarrow> prefs \<Rightarrow> nat \<Rightarrow> ustr list \<Rightarrow> py_error + ustr list" where
  "reverse_loop s preferences i out =
     (if i < length s
      then (case reverse_step s preferences i out of
              Inl e \<Rightarrow> Inl e
            | Inr (i', out') \<Rightarrow> reverse_loop s preferences i' out')
      else Inr out)"
  by pat_completeness auto
termination
proof (relation "measure (\<lambda>(s, preferences, i, out). length s - i)")
  show "wf (measure (\<lambda>(s, preferences, i, out). length s - i))"
    by simp
next
  fix s :: ustr and preferences :: prefs and i :: nat and out :: "ustr list" and x2 x y
  assume less: "i < length s"
    and step: "reverse_step s preferences i out = Inr x2" and x2: "(x, y) = x2"
  have nonempty: "\<forall>smb \<in> set SYMBOLS_SORTED. smb \<noteq> []"
    by (simp add: SYMBOLS_SORTED_def sorted_len_reverse_def REVERSE_def
          build_reverse_map_def FORWARD_def ascii_def)
  have "i < x"
  proof (cases "first_match s i")
    case None
    with step x2 show ?thesis
      by (auto simp: reverse_step_def bindE_def str_index_def split: if_splits)
  next
    case (Some smb)
    then have "smb \<in> set SYMBOLS_SORTED"
      by (auto simp: first_match_def find_Some_iff)
    with nonempty have "0 < length smb"
      by auto
    with Some step x2 show ?thesis
      by (auto simp: reverse_step_def bindE_def split: sum.splits option.splits)
  qed
  with less show "((s, preferences, x, y), (s, preferences, i, out))
      \<in> measure (\<lambda>(s, preferences, i, out). length s - i)"
    by simp
qed

definition reverse_convert :: "ustr \<Rightarrow> prefs \<Rightarrow> py_error + ustr" where
  "reverse_convert s preferences =
     bindE (reverse_loop s preferences 0 []) (\<lambda>out. Inr (concat out))"

declare convert_loop.simps [simp del]
declare reverse_loop.simps [simp del]

section \<open>Vocabulary of the statements\<close>

text \<open>The keys of a table that have \<open>n\<close> characters, and the ASCII capitals.\<close>

definition tokens_of_length :: "nat \<Rightarrow> (ustr \<times> ustr) list \<Rightarrow> ustr list" where
  "tokens_of_length n d = filter (\<lambda>k. length k = n) (map fst d)"

definition is_upper_latin :: "codepoint \<Rightarrow> bool" where
  "is_upper_latin c = (65 \<le> c \<and> c \<le> 90)"

definition is_token :: "ustr \<Rightarrow> bool" where
  "is_token k = ((length k = 1 \<or> length k = 2) \<and> list_all is_upper_latin k)"

text \<open>
  The ASCII letters; the smallest letter among those that share a symbol with a
  capital; the forward conversion followed by the reverse one; the combining marks
  that end the two-code-point symbols.
\<close>

definition is_latin_letter :: "codepoint \<Rightarrow> bool" where
  "is_latin_letter c = ((65 \<le> c \<and> c \<le> 90) \<or> (97 \<le> c \<and> c \<le> 122))"

definition least_token :: "codepoint \<Rightarrow> codepoint" where
  "least_token u =
     (if u = 75 \<or> u = 81 then 67
      else if u = 82 then 76
      else if u = 87 then 86
      else if u = 90 then 88
      else u)"

definition round_trip :: "ustr \<Rightarrow> prefs \<Rightarrow> py_error + ustr" where
  "round_trip L preferences = bindE (convert_text L) (\<lambda>y. reverse_convert y preferences)"

definition is_mark :: "codepoint \<Rightarrow> bool" where
  "is_mark c = (c = 768 \<or> c = 769 \<or> c = 772)"

section \<open>The derived tables and the loops, unfolded\<close>

lemma REVERSE_eq: "REVERSE =
 [([84], [[67, 72]]), ([65434], [[83, 72]]), ([86, 769], [[65]]),
  ([1043], [[66]]), ([12530], [[67], [75], [81]]), ([12467], [[68]]),
  ([72], [[69]]), ([8704], [[70]]), ([55], [[71]]), ([88], [[72]]),
  ([1048], [[73]]), ([65434, 768], [[74]]), ([90], [[76], [82]]),
  ([1055], [[77]]), ([76], [[78]]), ([86, 768], [[79]]), ([70], [[80]]),
  ([923], [[83]]), ([69], [[84]]), ([86, 772], [[85]]),
  ([86], [[86], [87]]), ([65], [[88], [90]]), ([75], [[89]])]"
  by (simp add: REVERSE_def build_reverse_map_def FORWARD_def ascii_def)

lemma SYMBOLS_SORTED_eq: "SYMBOLS_SORTED =
 [[86, 769], [65434, 768], [86, 768], [86, 772], [84], [65434], [1043],
  [12530], [12467], [72], [8704], [55], [88], [1048], [90], [1055], [76],
  [70], [923], [69], [86], [65], [75]]"
  by (simp add: SYMBOLS_SORTED_def sorted_len_reverse_def REVERSE_eq)

lemma bindE_Inr [simp]: "bindE (Inr x) f = f x"
  by (simp add: bindE_def)

lemma bindE_Inl [simp]: "bindE (Inl e) f = Inl e"
  by (simp add: bindE_def)

lemma nth_shift:
  "(pre @ s) ! (length pre + i) = s ! i"
  "(pre @ s) ! Suc (length pre + i) = s ! Suc i"
  by (simp_all add: nth_append)

lemma convert_step_shift:
  "convert_step (pre @ s) (length pre + i) (acc @ out) =
     bindE (convert_step s i out) (\<lambda>(j, x). Inr (length pre + j, acc @ x))"
  by (simp add: convert_step_def str_index_def nth_shift Let_def dict_getitem_def
        dict_contains_def split: option.split)

lemma convert_loop_shift:
  "convert_loop (pre @ s) (length pre + i) (acc @ out) =
     bindE (convert_loop s i out) (\<lambda>x. Inr (acc @ x))"
proof (induction s i out rule: convert_loop.induct)
  case (1 s i out)
  show ?case
  proof (cases "i < length s")
    case False
    then show ?thesis
      by (simp add: convert_loop.simps [of s i out]
            convert_loop.simps [of "pre @ s" "length pre + i" "acc @ out"])
  next
    case True
    show ?thesis
    proof (cases "convert_step s i out")
      case (Inl e)
      then show ?thesis
        using True
        by (simp add: convert_loop.simps [of s i out]
              convert_loop.simps [of "pre @ s" "length pre + i" "acc @ out"]
              convert_step_shift)
    next
      case (Inr st)
      obtain j x where st: "st = (j, x)" by (cases st)
      have "convert_loop (pre @ s) (length pre + j) (acc @ x) =
            bindE (convert_loop s j x) (\<lambda>x. Inr (acc @ x))"
        using "1.IH" [OF True Inr st [symmetric]] .
      then show ?thesis
        using True Inr st
        by (simp add: convert_loop.simps [of s i out]
              convert_loop.simps [of "pre @ s" "length pre + i" "acc @ out"]
              convert_step_shift)
    qed
  qed
qed

lemma convert_text_Nil: "convert_text [] = Inr []"
  by (simp add: convert_text_def convert_loop.simps [of "[]"])

lemma bindE_assoc: "bindE (bindE m f) g = bindE m (\<lambda>x. bindE (f x) g)"
  by (cases m) simp_all

lemma convert_text_digraph:
  assumes "map_of MAPPING [upper_cp a, upper_cp b] = Some v"
  shows "convert_text (a # b # r) = bindE (convert_text r) (\<lambda>x. Inr (v @ x))"
proof -
  have step: "convert_step (a # b # r) 0 [] = Inr (2, [v])"
    using assms
    by (simp add: convert_step_def str_index_def str_upper_def dict_contains_def
          dict_getitem_def)
  have "convert_loop (a # b # r) 0 [] = convert_loop (a # b # r) 2 [v]"
    using step by (simp add: convert_loop.simps [of "a # b # r" 0 "[]"])
  also have "\<dots> = bindE (convert_loop r 0 []) (\<lambda>x. Inr ([v] @ x))"
    using convert_loop_shift [of "[a, b]" r 0 "[v]" "[]"] by (simp add: numeral_2_eq_2)
  finally show ?thesis
    by (simp add: convert_text_def bindE_assoc)
qed

lemma convert_text_single:
  assumes "r = [] \<or> map_of MAPPING [upper_cp a, upper_cp (hd r)] = None"
  shows "convert_text (a # r) =
    bindE (convert_text r) (\<lambda>x. Inr ((case map_of MAPPING [upper_cp a] of
                                              Some v \<Rightarrow> v | None \<Rightarrow> [a]) @ x))"
proof -
  let ?v = "case map_of MAPPING [upper_cp a] of Some v \<Rightarrow> v | None \<Rightarrow> [a]"
  have step: "convert_step (a # r) 0 [] = Inr (1, [?v])"
    using assms
    by (cases r)
       (simp_all add: convert_step_def str_index_def str_upper_def dict_contains_def
          dict_getitem_def split: option.split)
  have "convert_loop (a # r) 0 [] = convert_loop (a # r) 1 [?v]"
    using step by (simp add: convert_loop.simps [of "a # r" 0 "[]"])
  also have "\<dots> = bindE (convert_loop r 0 []) (\<lambda>x. Inr ([?v] @ x))"
    using convert_loop_shift [of "[a]" r 0 "[?v]" "[]"] by simp
  finally show ?thesis
    by (simp add: convert_text_def bindE_assoc)
qed

lemma MAPPING_digraph_iff:
  "map_of MAPPING [x, y] = Some v \<longleftrightarrow>
     (x = 67 \<and> y = 72 \<and> v = [84]) \<or> (x = 83 \<and> y = 72 \<and> v = [65434])"
  by (auto simp: MAPPING_def ascii_def split: if_splits)

section \<open>The mapping table\<close>

text \<open>
  C3, as amended. The table has exactly two two-letter tokens and exactly 26 one-letter
  tokens (not 24): every letter \<open>A\<close>..\<open>Z\<close> has an entry of its own. Every token is a
  string of one or two ASCII capitals, tokens are pairwise distinct, and the reverse
  converter's \<open>FORWARD\<close> is the same table.
\<close>

theorem C3_token_counts:
  "length (tokens_of_length 2 MAPPING) = 2 \<and>
   length (tokens_of_length 1 MAPPING) = 26 \<and>
   length MAPPING = 28 \<and>
   list_all is_token (map fst MAPPING) \<and>
   distinct (map fst MAPPING) \<and>
   FORWARD = MAPPING"
  by (simp add: tokens_of_length_def is_token_def is_upper_latin_def MAPPING_def
        FORWARD_def ascii_def)

text \<open>C3 as stated fails: the one-letter tokens are not 24.\<close>

theorem C3_counterexample:
  "length (tokens_of_length 1 MAPPING) \<noteq> 24"
  by (simp add: tokens_of_length_def MAPPING_def ascii_def)

section \<open>The forward converter\<close>

lemma MAPPING_digraph_first_mapped:
  assumes "map_of MAPPING [x] = None"
  shows "map_of MAPPING [x, y] = None"
proof (cases "map_of MAPPING [x, y]")
  case None
  then show ?thesis .
next
  case (Some v)
  then have "x = 67 \<or> x = 83"
    by (auto simp: MAPPING_digraph_iff)
  with assms show ?thesis
    by (auto simp: MAPPING_def ascii_def)
qed

lemma convert_step_total:
  assumes "i < length s"
  shows "\<exists>i' out'. convert_step s i out = Inr (i', out') \<and> i < i' \<and> i' \<le> length s"
  using assms
  by (auto simp: convert_step_def str_index_def dict_contains_def dict_getitem_def Let_def)

lemma convert_loop_total: "\<exists>r. convert_loop s i out = Inr r"
proof (induction s i out rule: convert_loop.induct)
  case (1 s i out)
  show ?case
  proof (cases "i < length s")
    case False
    then show ?thesis by (simp add: convert_loop.simps [of s i out])
  next
    case True
    then obtain i' out' where st: "convert_step s i out = Inr (i', out')"
      using convert_step_total by blast
    from "1.IH" [OF True st refl] obtain r where "convert_loop s i' out' = Inr r" ..
    with True st show ?thesis by (simp add: convert_loop.simps [of s i out])
  qed
qed

lemma convert_text_total: "\<exists>r. convert_text s = Inr r"
proof -
  obtain r where "convert_loop s 0 [] = Inr r" using convert_loop_total by blast
  then show ?thesis by (simp add: convert_text_def)
qed

text \<open>
  C7. A text whose every character is absent from the table (the upper case of the
  character is no key: digits, punctuation, emoji) is returned as it is.
\<close>

theorem C7_pass_through:
  assumes "\<forall>c \<in> set x. \<not> dict_contains MAPPING (str_upper [c])"
  shows "convert_text x = Inr x"
  using assms
proof (induction x)
  case Nil
  show ?case by (rule convert_text_Nil)
next
  case (Cons a r)
  then have un: "map_of MAPPING [upper_cp a] = None" and r: "convert_text r = Inr r"
    by (simp_all add: dict_contains_def str_upper_def)
  have "r = [] \<or> map_of MAPPING [upper_cp a, upper_cp (hd r)] = None"
    using un by (simp add: MAPPING_digraph_first_mapped)
  then show ?case
    using un r by (simp add: convert_text_single)
qed

theorem C7_pass_through_witness:
  "list_all (\<lambda>c. \<not> dict_contains MAPPING (str_upper [c])) (ascii ''123-'' @ [127881]) \<and>
   convert_text (ascii ''123-'' @ [127881]) = Inr (ascii ''123-'' @ [127881])"
proof -
  have pre: "\<forall>c \<in> set (ascii ''123-'' @ [127881]). \<not> dict_contains MAPPING (str_upper [c])"
    by (simp add: ascii_def dict_contains_def str_upper_def upper_cp_def MAPPING_def)
  from pre C7_pass_through [OF pre] show ?thesis
    by (simp add: list_all_iff)
qed

lemma upper_cp_idem: "upper_cp (upper_cp c) = upper_cp c"
  unfolding upper_cp_def by auto

lemma upper_cp_lower_cp: "upper_cp (lower_cp c) = upper_cp c"
  unfolding upper_cp_def lower_cp_def by auto

lemma convert_text_upper_cong:
  assumes "map upper_cp s = map upper_cp t"
    and "\<forall>c \<in> set s. map_of MAPPING [upper_cp c] \<noteq> None"
  shows "convert_text s = convert_text t"
  using assms
proof (induction s arbitrary: t rule: length_induct)
  case (1 s)
  note IH = "1.IH" and eq = "1.prems"(1) and mapped = "1.prems"(2)
  show ?case
  proof (cases s)
    case Nil
    with eq show ?thesis by simp
  next
    case s: (Cons a r)
    with eq obtain a' r' where t: "t = a' # r'" and a: "upper_cp a = upper_cp a'"
      and r: "map upper_cp r = map upper_cp r'"
      by (cases t) auto
    from mapped s obtain v where v: "map_of MAPPING [upper_cp a] = Some v"
      by auto
    have tail: "convert_text r = convert_text r'"
      using IH r mapped s by simp
    show ?thesis
    proof (cases "r = [] \<or> map_of MAPPING [upper_cp a, upper_cp (hd r)] = None")
      case True
      moreover from True r a
      have "r' = [] \<or> map_of MAPPING [upper_cp a', upper_cp (hd r')] = None"
        by (cases r; cases r') auto
      ultimately show ?thesis
        using s t a v tail by (simp add: convert_text_single)
    next
      case False
      then obtain b r2 w where r2: "r = b # r2"
        and w: "map_of MAPPING [upper_cp a, upper_cp b] = Some w"
        by (cases r) auto
      with r obtain b' r2' where r2': "r' = b' # r2'" and b: "upper_cp b = upper_cp b'"
        and rr: "map upper_cp r2 = map upper_cp r2'"
        by (cases r') auto
      have "convert_text r2 = convert_text r2'"
        using IH rr mapped s r2 by simp
      then show ?thesis
        using s t r2 r2' w a b by (simp add: convert_text_digraph)
    qed
  qed
qed

text \<open>
  C6. On a text of mapped characters only (the upper case of every character is a key
  of the table), the conversion of the text, of its upper case and of its lower case
  are the same.
\<close>

theorem C6_case_insensitive:
  assumes "\<forall>c \<in> set s. dict_contains MAPPING (str_upper [c])"
  shows "convert_text s = convert_text (str_upper s) \<and>
         convert_text (str_upper s) = convert_text (str_lower s)"
proof -
  have mapped: "\<forall>c \<in> set s. map_of MAPPING [upper_cp c] \<noteq> None"
    using assms by (simp add: dict_contains_def str_upper_def)
  have "map upper_cp s = map upper_cp (str_upper s)"
    by (simp add: str_upper_def upper_cp_idem)
  then have up: "convert_text s = convert_text (str_upper s)"
    using mapped by (rule convert_text_upper_cong)
  have "map upper_cp s = map upper_cp (str_lower s)"
    by (simp add: str_lower_def upper_cp_lower_cp)
  then have "convert_text s = convert_text (str_lower s)"
    using mapped by (rule convert_text_upper_cong)
  with up show ?thesis by simp
qed

theorem C6_case_insensitive_witness:
  "list_all (\<lambda>c. dict_contains MAPPING (str_upper [c])) (ascii ''Chess'') \<and>
   convert_text (ascii ''Chess'') = convert_text (str_upper (ascii ''Chess'')) \<and>
   convert_text (str_upper (ascii ''Chess'')) = convert_text (str_lower (ascii ''Chess'')) \<and>
   convert_text (ascii ''Chess'') = Inr [84, 72, 923, 923]"
proof -
  have pre: "\<forall>c \<in> set (ascii ''Chess''). dict_contains MAPPING (str_upper [c])"
    by (simp add: ascii_def dict_contains_def str_upper_def upper_cp_def MAPPING_def)
  have "convert_text [67, 104, 101, 115, 115] = Inr [84, 72, 923, 923]"
    by (simp add: convert_text_digraph convert_text_single convert_text_Nil
          MAPPING_digraph_iff upper_cp_def MAPPING_def ascii_def)
  then have val: "convert_text (ascii ''Chess'') = Inr [84, 72, 923, 923]"
    by (simp add: ascii_def)
  from pre val C6_case_insensitive [OF pre] show ?thesis
    by (simp add: list_all_iff)
qed

lemma convert_text_append:
  assumes "p = [] \<or> q = [] \<or> map_of MAPPING [upper_cp (last p), upper_cp (hd q)] = None"
  shows "\<exists>x y. convert_text p = Inr x \<and> convert_text q = Inr y \<and>
               convert_text (p @ q) = Inr (x @ y)"
  using assms
proof (induction p rule: length_induct)
  case (1 p)
  have IH: "\<exists>x y. convert_text p' = Inr x \<and> convert_text q = Inr y \<and>
               convert_text (p' @ q) = Inr (x @ y)"
    if "length p' < length p"
      "p' = [] \<or> q = [] \<or> map_of MAPPING [upper_cp (last p'), upper_cp (hd q)] = None" for p'
    using "1.IH" that by blast
  note border = "1.prems"
  obtain y where y: "convert_text q = Inr y"
    using convert_text_total by blast
  show ?case
  proof (cases p)
    case Nil
    with y show ?thesis by (simp add: convert_text_Nil)
  next
    case p: (Cons a p1)
    show ?thesis
    proof (cases "p1 = [] \<or> map_of MAPPING [upper_cp a, upper_cp (hd p1)] = None")
      case single: True
      let ?v = "case map_of MAPPING [upper_cp a] of Some v \<Rightarrow> v | None \<Rightarrow> [a]"
      have "length p1 < length p"
        "p1 = [] \<or> q = [] \<or> map_of MAPPING [upper_cp (last p1), upper_cp (hd q)] = None"
        using p border by auto
      from IH [OF this] obtain x1 y1 where x1: "convert_text p1 = Inr x1"
        "convert_text q = Inr y1" "convert_text (p1 @ q) = Inr (x1 @ y1)"
        by blast
      have alone: "convert_text (a # p1) = Inr (?v @ x1)"
        unfolding convert_text_single [OF single] x1(1) by simp
      have next_char: "p1 @ q = [] \<or> map_of MAPPING [upper_cp a, upper_cp (hd (p1 @ q))] = None"
        using single border p by (cases p1) auto
      have "convert_text (a # p1 @ q) = Inr (?v @ x1 @ y1)"
        unfolding convert_text_single [OF next_char] x1(3) by simp
      with alone x1(2) p show ?thesis
        by simp
    next
      case False
      then obtain b p2 v where p1: "p1 = b # p2"
        and v: "map_of MAPPING [upper_cp a, upper_cp b] = Some v"
        by (cases p1) auto
      have "length p2 < length p"
        "p2 = [] \<or> q = [] \<or> map_of MAPPING [upper_cp (last p2), upper_cp (hd q)] = None"
        using p p1 border by auto
      from IH [OF this] obtain x2 y2 where x2: "convert_text p2 = Inr x2"
        "convert_text q = Inr y2" "convert_text (p2 @ q) = Inr (x2 @ y2)"
        by blast
      have alone: "convert_text (a # b # p2) = Inr (v @ x2)"
        unfolding convert_text_digraph [OF v] x2(1) by simp
      have "convert_text (a # b # p2 @ q) = Inr (v @ x2 @ y2)"
        unfolding convert_text_digraph [OF v] x2(3) by simp
      with alone x2(2) p p1 show ?thesis
        by simp
    qed
  qed
qed

lemma convert_text_at_digraph:
  assumes "map_of MAPPING [upper_cp a, upper_cp b] = Some v"
  shows "\<exists>x y. convert_text p = Inr x \<and> convert_text r = Inr y \<and>
               convert_text (p @ a # b # r) = Inr (x @ v @ y)"
proof -
  have first: "upper_cp a = 67 \<or> upper_cp a = 83"
    using assms by (auto simp: MAPPING_digraph_iff)
  have "map_of MAPPING [upper_cp c, upper_cp a] = None" for c
  proof (cases "map_of MAPPING [upper_cp c, upper_cp a]")
    case None
    then show ?thesis .
  next
    case (Some w)
    then have "upper_cp a = 72" by (auto simp: MAPPING_digraph_iff)
    with first show ?thesis by simp
  qed
  then have "p = [] \<or> a # b # r = [] \<or>
      map_of MAPPING [upper_cp (last p), upper_cp (hd (a # b # r))] = None"
    by simp
  from convert_text_append [OF this] obtain x z where xz: "convert_text p = Inr x"
    "convert_text (a # b # r) = Inr z" "convert_text (p @ a # b # r) = Inr (x @ z)"
    by blast
  obtain y where y: "convert_text r = Inr y"
    using convert_text_total by blast
  have "convert_text (a # b # r) = Inr (v @ y)"
    unfolding convert_text_digraph [OF assms] y by simp
  with xz y show ?thesis by simp
qed

lemma convert_loop_digraph:
  assumes "i + 1 < length s"
    and "map_of MAPPING [upper_cp (s ! i), upper_cp (s ! (i + 1))] = Some v"
  shows "convert_step s i out = Inr (i + 2, out @ [v])"
    and "convert_loop s i out = convert_loop s (i + 2) (out @ [v])"
proof -
  show step: "convert_step s i out = Inr (i + 2, out @ [v])"
    using assms
    by (simp add: convert_step_def str_index_def str_upper_def dict_contains_def
          dict_getitem_def)
  have "i < length s" using assms(1) by simp
  then show "convert_loop s i out = convert_loop s (i + 2) (out @ [v])"
    using step by (simp add: convert_loop.simps [of s i out])
qed

lemma convert_loop_rest:
  assumes "i \<le> length s"
  shows "bindE (convert_loop s i out) (\<lambda>pieces. Inr (concat pieces)) =
         bindE (convert_text (drop i s)) (\<lambda>x. Inr (concat out @ x))"
proof -
  have "convert_loop (take i s @ drop i s) (length (take i s) + 0) (out @ []) =
      bindE (convert_loop (drop i s) 0 []) (\<lambda>x. Inr (out @ x))"
    by (rule convert_loop_shift)
  then have "convert_loop s i out = bindE (convert_loop (drop i s) 0 []) (\<lambda>x. Inr (out @ x))"
    using assms by (simp add: min_absorb2)
  then show ?thesis
    by (simp add: convert_text_def bindE_assoc)
qed

text \<open>
  C5. Wherever two adjacent characters of the text upper-case to a key of the table
  (\<open>CH\<close> or \<open>SH\<close> in any casing), whatever precedes and follows them, the output is
  the conversion of what precedes, the digraph's symbol, and the conversion of what
  follows: the pair is never converted as two single characters. In the loop, at
  every position with at least two characters left, such a pair makes the step emit
  the digraph's symbol and advance by two, and from every position the rest of the
  output is the conversion of the rest of the text. So \<open>CH\<close> gives \<open>T\<close> and \<open>SH\<close> gives
  U+FF9A, while \<open>C\<close> and \<open>H\<close> alone give U+30F2 and \<open>X\<close>.
\<close>

theorem C5_digraph_first:
  "(i + 1 < length s \<and> dict_contains MAPPING (str_upper [s ! i, s ! (i + 1)]) \<longrightarrow>
      (\<exists>v. dict_getitem MAPPING (str_upper [s ! i, s ! (i + 1)]) = Inr v \<and>
           convert_step s i out = Inr (i + 2, out @ [v]) \<and>
           convert_loop s i out = convert_loop s (i + 2) (out @ [v]))) \<and>
   (i \<le> length s \<longrightarrow>
      bindE (convert_loop s i out) (\<lambda>pieces. Inr (concat pieces)) =
      bindE (convert_text (drop i s)) (\<lambda>x. Inr (concat out @ x))) \<and>
   (dict_contains MAPPING (str_upper [a, b]) \<longrightarrow>
      (\<exists>v x y. dict_getitem MAPPING (str_upper [a, b]) = Inr v \<and>
           convert_text p = Inr x \<and> convert_text r = Inr y \<and>
           convert_text (p @ a # b # r) = Inr (x @ v @ y))) \<and>
   (upper_cp a = 67 \<and> upper_cp b = 72 \<longrightarrow>
      (\<exists>x y. convert_text p = Inr x \<and> convert_text r = Inr y \<and>
           convert_text (p @ a # b # r) = Inr (x @ ascii ''T'' @ y))) \<and>
   (upper_cp a = 83 \<and> upper_cp b = 72 \<longrightarrow>
      (\<exists>x y. convert_text p = Inr x \<and> convert_text r = Inr y \<and>
           convert_text (p @ a # b # r) = Inr (x @ [65434] @ y))) \<and>
   convert_text (ascii ''CH'') = Inr (ascii ''T'') \<and>
   convert_text (ascii ''Ch'') = Inr (ascii ''T'') \<and>
   convert_text (ascii ''cH'') = Inr (ascii ''T'') \<and>
   convert_text (ascii ''ch'') = Inr (ascii ''T'') \<and>
   convert_text (ascii ''SH'') = Inr [65434] \<and>
   convert_text (ascii ''Sh'') = Inr [65434] \<and>
   convert_text (ascii ''sH'') = Inr [65434] \<and>
   convert_text (ascii ''sh'') = Inr [65434] \<and>
   convert_text (ascii ''C'') = Inr [12530] \<and>
   convert_text (ascii ''H'') = Inr (ascii ''X'') \<and>
   convert_text (ascii ''aChb'') = Inr [86, 769, 84, 1043] \<and>
   convert_text (ascii ''cch'') = Inr [12530, 84]"
proof -
  have loop: "i + 1 < length s \<and> dict_contains MAPPING (str_upper [s ! i, s ! (i + 1)]) \<longrightarrow>
      (\<exists>v. dict_getitem MAPPING (str_upper [s ! i, s ! (i + 1)]) = Inr v \<and>
           convert_step s i out = Inr (i + 2, out @ [v]) \<and>
           convert_loop s i out = convert_loop s (i + 2) (out @ [v]))"
  proof
    assume h: "i + 1 < length s \<and> dict_contains MAPPING (str_upper [s ! i, s ! (i + 1)])"
    then obtain v where v: "map_of MAPPING [upper_cp (s ! i), upper_cp (s ! (i + 1))] = Some v"
      by (auto simp: dict_contains_def str_upper_def)
    then have "dict_getitem MAPPING (str_upper [s ! i, s ! (i + 1)]) = Inr v"
      by (simp add: dict_getitem_def str_upper_def)
    with convert_loop_digraph [OF conjunct1 [OF h] v, of out]
    show "\<exists>v. dict_getitem MAPPING (str_upper [s ! i, s ! (i + 1)]) = Inr v \<and>
           convert_step s i out = Inr (i + 2, out @ [v]) \<and>
           convert_loop s i out = convert_loop s (i + 2) (out @ [v])"
      by blast
  qed
  have rest: "i \<le> length s \<longrightarrow>
      bindE (convert_loop s i out) (\<lambda>pieces. Inr (concat pieces)) =
      bindE (convert_text (drop i s)) (\<lambda>x. Inr (concat out @ x))"
    using convert_loop_rest by blast
  have at: "\<exists>x y. convert_text p = Inr x \<and> convert_text r = Inr y \<and>
           convert_text (p @ a # b # r) = Inr (x @ v @ y)"
    if "map_of MAPPING [upper_cp a, upper_cp b] = Some v" for v
    using that by (rule convert_text_at_digraph)
  have general: "dict_contains MAPPING (str_upper [a, b]) \<longrightarrow>
      (\<exists>v x y. dict_getitem MAPPING (str_upper [a, b]) = Inr v \<and>
           convert_text p = Inr x \<and> convert_text r = Inr y \<and>
           convert_text (p @ a # b # r) = Inr (x @ v @ y))"
  proof
    assume "dict_contains MAPPING (str_upper [a, b])"
    then obtain v where v: "map_of MAPPING [upper_cp a, upper_cp b] = Some v"
      by (auto simp: dict_contains_def str_upper_def)
    then have "dict_getitem MAPPING (str_upper [a, b]) = Inr v"
      by (simp add: dict_getitem_def str_upper_def)
    with at [OF v]
    show "\<exists>v x y. dict_getitem MAPPING (str_upper [a, b]) = Inr v \<and>
           convert_text p = Inr x \<and> convert_text r = Inr y \<and>
           convert_text (p @ a # b # r) = Inr (x @ v @ y)"
      by blast
  qed
  have ch: "upper_cp a = 67 \<and> upper_cp b = 72 \<longrightarrow>
      (\<exists>x y. convert_text p = Inr x \<and> convert_text r = Inr y \<and>
           convert_text (p @ a # b # r) = Inr (x @ ascii ''T'' @ y))"
  proof
    assume "upper_cp a = 67 \<and> upper_cp b = 72"
    then have "map_of MAPPING [upper_cp a, upper_cp b] = Some (ascii ''T'')"
      by (simp add: MAPPING_digraph_iff ascii_def)
    then show "\<exists>x y. convert_text p = Inr x \<and> convert_text r = Inr y \<and>
           convert_text (p @ a # b # r) = Inr (x @ ascii ''T'' @ y)"
      by (rule at)
  qed
  have sh: "upper_cp a = 83 \<and> upper_cp b = 72 \<longrightarrow>
      (\<exists>x y. convert_text p = Inr x \<and> convert_text r = Inr y \<and>
           convert_text (p @ a # b # r) = Inr (x @ [65434] @ y))"
  proof
    assume "upper_cp a = 83 \<and> upper_cp b = 72"
    then have "map_of MAPPING [upper_cp a, upper_cp b] = Some [65434]"
      by (simp add: MAPPING_digraph_iff)
    then show "\<exists>x y. convert_text p = Inr x \<and> convert_text r = Inr y \<and>
           convert_text (p @ a # b # r) = Inr (x @ [65434] @ y)"
      by (rule at)
  qed
  have two: "convert_text (c # d # q) = bindE (convert_text q) (\<lambda>x. Inr (84 # x))"
    if "upper_cp c = 67" "upper_cp d = 72" for c d q
    using that convert_text_digraph [of c d "[84]" q] by (simp add: MAPPING_digraph_iff)
  have two': "convert_text [c, d] = Inr [65434]" if "upper_cp c = 83" "upper_cp d = 72" for c d
    using that convert_text_digraph [of c d "[65434]" "[]"]
    by (simp add: MAPPING_digraph_iff convert_text_Nil)
  have one: "convert_text [c] = Inr (case map_of MAPPING [upper_cp c] of Some v \<Rightarrow> v | None \<Rightarrow> [c])"
    for c
    using convert_text_single [of "[]" c] by (simp add: convert_text_Nil)
  have up: "upper_cp 67 = 67" "upper_cp 99 = 67" "upper_cp 72 = 72" "upper_cp 104 = 72"
    "upper_cp 83 = 83" "upper_cp 115 = 83" "upper_cp 97 = 65" "upper_cp 98 = 66"
    by (simp_all add: upper_cp_def)
  have tab: "map_of MAPPING [67] = Some [12530]" "map_of MAPPING [72] = Some [88]"
    "map_of MAPPING [65] = Some [86, 769]" "map_of MAPPING [66] = Some [1043]"
    "map_of MAPPING [65, 67] = None" "map_of MAPPING [67, 67] = None"
    by (simp_all add: MAPPING_def ascii_def)
  have b: "convert_text [98] = Inr [1043]"
    by (simp add: one up tab)
  have chb: "convert_text [67, 104, 98] = Inr [84, 1043]"
    by (simp add: two up b)
  have achb: "convert_text [97, 67, 104, 98] = Inr [86, 769, 84, 1043]"
    using convert_text_single [of "[67, 104, 98]" 97] by (simp add: up tab chb)
  have cch: "convert_text [99, 99, 104] = Inr [12530, 84]"
    using convert_text_single [of "[99, 104]" 99] by (simp add: up tab two convert_text_Nil)
  have vals: "convert_text (ascii ''CH'') = Inr (ascii ''T'')"
    "convert_text (ascii ''Ch'') = Inr (ascii ''T'')"
    "convert_text (ascii ''cH'') = Inr (ascii ''T'')"
    "convert_text (ascii ''ch'') = Inr (ascii ''T'')"
    "convert_text (ascii ''SH'') = Inr [65434]"
    "convert_text (ascii ''Sh'') = Inr [65434]"
    "convert_text (ascii ''sH'') = Inr [65434]"
    "convert_text (ascii ''sh'') = Inr [65434]"
    "convert_text (ascii ''C'') = Inr [12530]"
    "convert_text (ascii ''H'') = Inr (ascii ''X'')"
    "convert_text (ascii ''aChb'') = Inr [86, 769, 84, 1043]"
    "convert_text (ascii ''cch'') = Inr [12530, 84]"
    by (simp_all add: ascii_def two two' one up tab convert_text_Nil achb cch)
  from loop rest general ch sh vals show ?thesis
    by blast
qed

theorem C5_digraph_first_witness:
  "1 + 1 < length (ascii ''aChb'') \<and>
   dict_contains MAPPING (str_upper [ascii ''aChb'' ! 1, ascii ''aChb'' ! (1 + 1)]) \<and>
   convert_step (ascii ''aChb'') 1 [[86, 769]] = Inr (3, [[86, 769], ascii ''T'']) \<and>
   convert_loop (ascii ''aChb'') 1 [[86, 769]] =
     convert_loop (ascii ''aChb'') 3 [[86, 769], ascii ''T''] \<and>
   1 \<le> length (ascii ''aChb'') \<and>
   dict_contains MAPPING (str_upper [115, 72]) \<and>
   upper_cp 99 = 67 \<and> upper_cp 104 = 72 \<and> upper_cp 115 = 83 \<and> upper_cp 72 = 72 \<and>
   convert_text (ascii ''ac'' @ 99 # 104 # ascii ''b'') = Inr ([86, 769, 12530] @ ascii ''T'' @ [1043]) \<and>
   convert_text (ascii ''ac'' @ 115 # 72 # ascii ''b'') = Inr ([86, 769, 12530] @ [65434] @ [1043])"
proof -
  have pre: "1 + 1 < length (ascii ''aChb'') \<and>
      dict_contains MAPPING (str_upper [ascii ''aChb'' ! 1, ascii ''aChb'' ! (1 + 1)])"
    "1 \<le> length (ascii ''aChb'')" "dict_contains MAPPING (str_upper [115, 72])"
    by (simp_all add: ascii_def str_upper_def upper_cp_def dict_contains_def MAPPING_def)
  have up: "upper_cp 99 = 67 \<and> upper_cp 104 = 72" "upper_cp 115 = 83 \<and> upper_cp 72 = 72"
    by (simp_all add: upper_cp_def)
  have get: "dict_getitem MAPPING (str_upper [ascii ''aChb'' ! 1, ascii ''aChb'' ! (1 + 1)])
      = Inr (ascii ''T'')"
    by (simp add: ascii_def str_upper_def upper_cp_def dict_getitem_def MAPPING_def)
  have ac: "convert_text (ascii ''ac'') = Inr [86, 769, 12530]"
    using convert_text_single [of "[99]" 97] convert_text_single [of "[]" 99]
    by (simp add: ascii_def upper_cp_def MAPPING_def convert_text_Nil)
  have b: "convert_text (ascii ''b'') = Inr [1043]"
    using convert_text_single [of "[]" 98]
    by (simp add: ascii_def upper_cp_def MAPPING_def convert_text_Nil)
  note inst1 = C5_digraph_first [where i = 1 and s = "ascii ''aChb''" and out = "[[86, 769]]"
      and a = 99 and b = 104 and p = "ascii ''ac''" and r = "ascii ''b''"]
  note inst2 = C5_digraph_first [where i = 1 and s = "ascii ''aChb''" and out = "[[86, 769]]"
      and a = 115 and b = 72 and p = "ascii ''ac''" and r = "ascii ''b''"]
  have step: "convert_step (ascii ''aChb'') 1 [[86, 769]] = Inr (3, [[86, 769], ascii ''T''])"
    "convert_loop (ascii ''aChb'') 1 [[86, 769]] =
       convert_loop (ascii ''aChb'') 3 [[86, 769], ascii ''T'']"
    using pre(1) get inst1 by (simp_all add: numeral_3_eq_3)
  have t1: "convert_text (ascii ''ac'' @ 99 # 104 # ascii ''b'') =
      Inr ([86, 769, 12530] @ ascii ''T'' @ [1043])"
    using up(1) ac b inst1 by simp
  have t2: "convert_text (ascii ''ac'' @ 115 # 72 # ascii ''b'') =
      Inr ([86, 769, 12530] @ [65434] @ [1043])"
    using up(2) ac b inst2 by simp
  from pre up step t1 t2 show ?thesis
    by simp
qed

section \<open>The reverse converter\<close>

lemma startswith_shift: "startswith (pre @ s) smb (length pre + i) = startswith s smb i"
  by (simp add: startswith_def)

lemma first_match_shift: "first_match (pre @ s) (length pre + i) = first_match s i"
  by (simp add: first_match_def startswith_shift)

lemma reverse_step_shift:
  "reverse_step (pre @ s) p (length pre + i) (acc @ out) =
     bindE (reverse_step s p i out) (\<lambda>(j, x). Inr (length pre + j, acc @ x))"
proof (cases "first_match s i")
  case None
  then show ?thesis
    by (simp add: reverse_step_def first_match_shift str_index_def nth_shift)
next
  case (Some smb)
  show ?thesis
  proof (cases "choose_latin_for_symbol smb p")
    case (Inl e)
    with Some show ?thesis
      by (simp add: reverse_step_def first_match_shift)
  next
    case (Inr latin)
    with Some show ?thesis
      by (cases latin) (simp_all add: reverse_step_def first_match_shift)
  qed
qed

lemma reverse_loop_shift:
  "reverse_loop (pre @ s) p (length pre + i) (acc @ out) =
     bindE (reverse_loop s p i out) (\<lambda>x. Inr (acc @ x))"
proof (induction s p i out rule: reverse_loop.induct)
  case (1 s p i out)
  show ?case
  proof (cases "i < length s")
    case False
    then show ?thesis
      by (simp add: reverse_loop.simps [of s p i out]
            reverse_loop.simps [of "pre @ s" p "length pre + i" "acc @ out"])
  next
    case True
    show ?thesis
    proof (cases "reverse_step s p i out")
      case (Inl e)
      then show ?thesis
        using True
        by (simp add: reverse_loop.simps [of s p i out]
              reverse_loop.simps [of "pre @ s" p "length pre + i" "acc @ out"]
              reverse_step_shift)
    next
      case (Inr st)
      obtain j x where st: "st = (j, x)" by (cases st)
      have "reverse_loop (pre @ s) p (length pre + j) (acc @ x) =
            bindE (reverse_loop s p j x) (\<lambda>x. Inr (acc @ x))"
        using "1.IH" [OF True Inr st [symmetric]] .
      then show ?thesis
        using True Inr st
        by (simp add: reverse_loop.simps [of s p i out]
              reverse_loop.simps [of "pre @ s" p "length pre + i" "acc @ out"]
              reverse_step_shift)
    qed
  qed
qed

lemma reverse_convert_Nil: "reverse_convert [] p = Inr []"
  by (simp add: reverse_convert_def reverse_loop.simps [of "[]"])

lemma first_match_Some:
  assumes "first_match s i = Some smb"
  shows "smb \<in> set SYMBOLS_SORTED" and "startswith s smb i"
  using assms by (auto simp: first_match_def find_Some_iff)

lemma SYMBOLS_SORTED_nonempty: "smb \<in> set SYMBOLS_SORTED \<Longrightarrow> smb \<noteq> []"
  by (auto simp: SYMBOLS_SORTED_eq)

lemma reverse_convert_match:
  assumes m: "first_match (smb @ r) 0 = Some smb"
    and c: "choose_latin_for_symbol smb p = Inr (Some l)"
  shows "reverse_convert (smb @ r) p = bindE (reverse_convert r p) (\<lambda>x. Inr (l @ x))"
proof -
  have ne: "smb \<noteq> []"
    using first_match_Some(1) [OF m] by (rule SYMBOLS_SORTED_nonempty)
  have step: "reverse_step (smb @ r) p 0 [] = Inr (length smb, [l])"
    using m c by (simp add: reverse_step_def)
  have "reverse_loop (smb @ r) p 0 [] = reverse_loop (smb @ r) p (length smb) [l]"
    using step ne by (simp add: reverse_loop.simps [of "smb @ r" p 0 "[]"])
  also have "\<dots> = bindE (reverse_loop r p 0 []) (\<lambda>x. Inr ([l] @ x))"
    using reverse_loop_shift [of smb r p 0 "[l]" "[]"] by simp
  finally show ?thesis
    by (simp add: reverse_convert_def bindE_assoc)
qed

lemma choose_total: "\<exists>r. choose_latin_for_symbol smb p = Inr r"
proof (cases "dict_get REVERSE smb")
  case None
  then show ?thesis by (simp add: choose_latin_for_symbol_def)
next
  case (Some options)
  have srt: "0 < length (sort options)" if "options \<noteq> []"
    using that by simp
  show ?thesis
  proof (cases p)
    case None
    with Some srt show ?thesis
      by (auto simp: choose_latin_for_symbol_def truthy_def str_index_def)
  next
    case p: (Some d)
    with Some srt show ?thesis
      by (auto simp: choose_latin_for_symbol_def truthy_def str_index_def prefs_contains_def
            prefs_getitem_def dict_contains_def dict_getitem_def)
  qed
qed

lemma REVERSE_options_nonempty:
  assumes "dict_get REVERSE smb = Some options"
  shows "options \<noteq> []"
  using assms by (auto simp: dict_get_def REVERSE_eq split: if_splits)

lemma sort_head_least:
  fixes xs :: "'a::linorder list"
  assumes "xs \<noteq> []"
  shows "sort xs ! 0 \<in> set xs \<and> (\<forall>x \<in> set xs. sort xs ! 0 \<le> x)"
proof -
  have ne: "sort xs \<noteq> []" using assms by (metis length_sort length_0_conv)
  then obtain y ys where ys: "sort xs = y # ys" by (cases "sort xs") auto
  have "sorted (y # ys)" using ys by (metis sorted_sort)
  then have "\<forall>x \<in> set (y # ys). y \<le> x" by auto
  moreover have "set (y # ys) = set xs" using ys by (metis set_sort)
  ultimately show ?thesis using ys by auto
qed

text \<open>
  C2. For a symbol of the inverse mapping with candidate list \<open>options\<close>:
  one candidate is returned as it is; with several candidates, an entry of
  \<open>preferences\<close> for the symbol that is among the candidates is returned; with no
  such entry (no preferences, no entry for the symbol, or an entry that is no
  candidate) the result is a candidate that is smallest in the lexicographic order
  of code points. U+30F2 resolves to \<open>C\<close> without preferences and to \<open>K\<close> with the
  preference \<open>K\<close>.
\<close>

theorem C2_choose_three_tier:
  assumes "dict_get REVERSE smb = Some options"
  shows "(length options = 1 \<longrightarrow>
            choose_latin_for_symbol smb preferences = Inr (Some (options ! 0))) \<and>
         (length options \<noteq> 1 \<longrightarrow>
            (\<forall>d p. preferences = Some d \<and> map_of d smb = Some p \<and> p \<in> set options \<longrightarrow>
                 choose_latin_for_symbol smb preferences = Inr (Some p))) \<and>
         (length options \<noteq> 1 \<longrightarrow>
            \<not> (\<exists>d p. preferences = Some d \<and> map_of d smb = Some p \<and> p \<in> set options) \<longrightarrow>
            (\<exists>m. choose_latin_for_symbol smb preferences = Inr (Some m) \<and>
                 m \<in> set options \<and> (\<forall>x \<in> set options. m \<le> x))) \<and>
         choose_latin_for_symbol [12530] None = Inr (Some (ascii ''C'')) \<and>
         choose_latin_for_symbol [12530] (Some []) = Inr (Some (ascii ''C'')) \<and>
         choose_latin_for_symbol [12530] (Some [([12530], ascii ''K'')]) = Inr (Some (ascii ''K''))"
proof -
  have ne: "options \<noteq> []"
    using assms by (rule REVERSE_options_nonempty)
  have uniq: "choose_latin_for_symbol smb preferences = Inr (Some (options ! 0))"
    if "length options = 1"
    using that assms ne by (simp add: choose_latin_for_symbol_def str_index_def)
  have pref: "choose_latin_for_symbol smb preferences = Inr (Some p)"
    if "length options \<noteq> 1" "preferences = Some d" "map_of d smb = Some p" "p \<in> set options"
    for d p
  proof -
    have "d \<noteq> []" using that(3) by auto
    then show ?thesis
      using that assms ne
      by (simp add: choose_latin_for_symbol_def truthy_def prefs_contains_def
            prefs_getitem_def dict_contains_def dict_getitem_def)
  qed
  have fallback: "choose_latin_for_symbol smb preferences = Inr (Some (sort options ! 0))"
    if "length options \<noteq> 1"
      "\<not> (\<exists>d p. preferences = Some d \<and> map_of d smb = Some p \<and> p \<in> set options)"
  proof (cases preferences)
    case None
    then show ?thesis
      using that assms ne
      by (simp add: choose_latin_for_symbol_def truthy_def str_index_def)
  next
    case (Some d)
    then show ?thesis
      using that assms ne
      by (cases "map_of d smb")
         (simp_all add: choose_latin_for_symbol_def truthy_def str_index_def prefs_contains_def
            prefs_getitem_def dict_contains_def dict_getitem_def)
  qed
  have wo: "choose_latin_for_symbol [12530] None = Inr (Some (ascii ''C''))"
    "choose_latin_for_symbol [12530] (Some []) = Inr (Some (ascii ''C''))"
    "choose_latin_for_symbol [12530] (Some [([12530], ascii ''K'')]) = Inr (Some (ascii ''K''))"
    by (simp_all add: choose_latin_for_symbol_def dict_get_def REVERSE_eq truthy_def
          str_index_def prefs_contains_def prefs_getitem_def dict_contains_def
          dict_getitem_def ascii_def)
  show ?thesis
    using uniq pref fallback sort_head_least [OF ne] wo by blast
qed

theorem C2_choose_three_tier_witness:
  "dict_get REVERSE (ascii ''Z'') = Some [ascii ''L'', ascii ''R''] \<and>
   choose_latin_for_symbol (ascii ''Z'') (Some [(ascii ''Z'', ascii ''R'')]) = Inr (Some (ascii ''R'')) \<and>
   choose_latin_for_symbol (ascii ''Z'') (Some [(ascii ''Z'', ascii ''Q'')]) = Inr (Some (ascii ''L''))"
proof -
  have pre: "dict_get REVERSE (ascii ''Z'') = Some [ascii ''L'', ascii ''R'']"
    by (simp add: dict_get_def REVERSE_eq ascii_def)
  note three = C2_choose_three_tier [OF pre]
  have a: "choose_latin_for_symbol (ascii ''Z'') (Some [(ascii ''Z'', ascii ''R'')]) = Inr (Some (ascii ''R''))"
    using three [of "Some [(ascii ''Z'', ascii ''R'')]"] by (simp add: ascii_def)
  have "\<exists>m. choose_latin_for_symbol (ascii ''Z'') (Some [(ascii ''Z'', ascii ''Q'')]) = Inr (Some m) \<and>
     m \<in> set [ascii ''L'', ascii ''R''] \<and> (\<forall>x \<in> set [ascii ''L'', ascii ''R'']. m \<le> x)"
    using three [of "Some [(ascii ''Z'', ascii ''Q'')]"] by (simp add: ascii_def)
  then have b: "choose_latin_for_symbol (ascii ''Z'') (Some [(ascii ''Z'', ascii ''Q'')]) = Inr (Some (ascii ''L''))"
    by (auto simp: ascii_def)
  from pre a b show ?thesis by simp
qed

lemma sorted_len_reverse_desc:
  "sorted_wrt (\<lambda>a b. length b \<le> length a) (sorted_len_reverse xs)"
proof -
  have "sorted (map length (sort_key length (rev xs)))"
    by (rule sorted_sort_key)
  then have "sorted_wrt (\<lambda>a b. length a \<le> length b) (sort_key length (rev xs))"
    by (simp add: sorted_map)
  then show ?thesis
    by (simp add: sorted_len_reverse_def sorted_wrt_rev)
qed

lemma sorted_len_reverse_stable:
  "filter (\<lambda>x. length x = k) (sorted_len_reverse xs) = filter (\<lambda>x. length x = k) xs"
proof -
  have "filter (\<lambda>x. length x = k) (sort_key length (rev xs)) = filter (\<lambda>x. length x = k) (rev xs)"
    by (rule sort_key_stable)
  then have "rev (filter (\<lambda>x. length x = k) (sort_key length (rev xs))) =
      filter (\<lambda>x. length x = k) xs"
    by (simp add: rev_filter)
  then show ?thesis
    by (simp add: sorted_len_reverse_def rev_filter)
qed

lemma find_sorted_wrt:
  assumes "sorted_wrt R xs" and "x \<in> set xs" and "P x"
  shows "\<exists>m. find P xs = Some m \<and> m \<in> set xs \<and> P m \<and> (m = x \<or> R m x)"
  using assms
proof (induction xs)
  case Nil
  then show ?case by simp
next
  case (Cons y ys)
  show ?case
  proof (cases "P y")
    case True
    with Cons.prems show ?thesis by auto
  next
    case False
    with Cons.prems have "x \<in> set ys" "sorted_wrt R ys" by auto
    from Cons.IH [OF this(2) this(1) Cons.prems(3)] False show ?thesis by auto
  qed
qed

lemma startswith_length:
  assumes "startswith s smb i" and "smb \<noteq> []"
  shows "i + length smb \<le> length s"
proof -
  from assms(1) have "length (take (length smb) (drop i s)) = length smb"
    by (simp add: startswith_def)
  then have "length smb \<le> length s - i"
    by simp
  moreover have "0 < length smb"
    using assms(2) by simp
  ultimately show ?thesis
    by arith
qed

lemma SYMBOLS_SORTED_choice:
  assumes "smb \<in> set SYMBOLS_SORTED"
  shows "\<exists>options l. dict_get REVERSE smb = Some options \<and> options \<noteq> [] \<and>
           choose_latin_for_symbol smb p = Inr (Some l)"
proof -
  have "smb \<in> fst ` set REVERSE"
    using assms by (simp add: SYMBOLS_SORTED_def sorted_len_reverse_def)
  then obtain options where o: "dict_get REVERSE smb = Some options"
    by (metis dict_get_def domD dom_map_of_conv_image_fst)
  have ne: "options \<noteq> []" using o by (rule REVERSE_options_nonempty)
  obtain r where r: "choose_latin_for_symbol smb p = Inr r"
    using choose_total by blast
  have "r \<noteq> None"
  proof
    assume "r = None"
    with r o ne show False
      by (auto simp: choose_latin_for_symbol_def bindE_def split: if_splits sum.splits)
  qed
  with r o ne show ?thesis by auto
qed

lemma reverse_step_matched:
  assumes "first_match s i = Some m"
  shows "\<exists>l. choose_latin_for_symbol m p = Inr (Some l) \<and>
             reverse_step s p i out = Inr (i + length m, out @ [l])"
proof -
  from first_match_Some(1) [OF assms] obtain l where "choose_latin_for_symbol m p = Inr (Some l)"
    using SYMBOLS_SORTED_choice by blast
  with assms show ?thesis by (simp add: reverse_step_def)
qed

lemma first_match_longest:
  assumes "first_match s i = Some m" and "x \<in> set SYMBOLS_SORTED" and "startswith s x i"
  shows "length x \<le> length m"
proof -
  have order: "sorted_wrt (\<lambda>a b. length b \<le> length a) SYMBOLS_SORTED"
    unfolding SYMBOLS_SORTED_def by (rule sorted_len_reverse_desc)
  from find_sorted_wrt [OF order assms(2), of "\<lambda>y. startswith s y i"] assms(3)
  obtain m' where "first_match s i = Some m'" "m' = x \<or> length x \<le> length m'"
    by (auto simp: first_match_def)
  with assms(1) show ?thesis by auto
qed

lemma first_match_known_prefix:
  assumes "smb \<in> set SYMBOLS_SORTED" and "startswith s smb i"
  shows "\<exists>m. first_match s i = Some m"
proof -
  have order: "sorted_wrt (\<lambda>a b. length b \<le> length a) SYMBOLS_SORTED"
    unfolding SYMBOLS_SORTED_def by (rule sorted_len_reverse_desc)
  from find_sorted_wrt [OF order assms(1), of "\<lambda>y. startswith s y i"] assms(2)
  show ?thesis by (auto simp: first_match_def)
qed

lemma reverse_loop_matched:
  assumes m: "first_match s i = Some m"
  shows "\<exists>l. choose_latin_for_symbol m p = Inr (Some l) \<and>
             reverse_step s p i out = Inr (i + length m, out @ [l]) \<and>
             reverse_loop s p i out = reverse_loop s p (i + length m) (out @ [l])"
proof -
  from reverse_step_matched [OF m, of p out] obtain l where
    l: "choose_latin_for_symbol m p = Inr (Some l)"
    "reverse_step s p i out = Inr (i + length m, out @ [l])"
    by blast
  have ne: "m \<noteq> []"
    using first_match_Some(1) [OF m] by (rule SYMBOLS_SORTED_nonempty)
  have "i + length m \<le> length s"
    using first_match_Some(2) [OF m] ne by (rule startswith_length)
  with ne have "i < length s"
    by (cases m) auto
  then have "reverse_loop s p i out = reverse_loop s p (i + length m) (out @ [l])"
    using l(2) by (simp add: reverse_loop.simps [of s p i out])
  with l show ?thesis by blast
qed

lemma reverse_loop_rest:
  assumes "i \<le> length s"
  shows "bindE (reverse_loop s p i out) (\<lambda>pieces. Inr (concat pieces)) =
         bindE (reverse_convert (drop i s) p) (\<lambda>x. Inr (concat out @ x))"
proof -
  have "reverse_loop (take i s @ drop i s) p (length (take i s) + 0) (out @ []) =
      bindE (reverse_loop (drop i s) p 0 []) (\<lambda>x. Inr (out @ x))"
    by (rule reverse_loop_shift)
  then have "reverse_loop s p i out = bindE (reverse_loop (drop i s) p 0 []) (\<lambda>x. Inr (out @ x))"
    using assms by (simp add: min_absorb2)
  then show ?thesis
    by (simp add: reverse_convert_def bindE_assoc)
qed

lemma reverse_convert_head:
  assumes m: "first_match t 0 = Some m" and l: "choose_latin_for_symbol m p = Inr (Some l)"
  shows "reverse_convert t p =
         bindE (reverse_convert (drop (length m) t) p) (\<lambda>x. Inr (l @ x))"
proof -
  have "take (length m) t = m"
    using first_match_Some(2) [OF m] by (simp add: startswith_def)
  then have t: "m @ drop (length m) t = t"
    by (metis append_take_drop_id)
  have "first_match (m @ drop (length m) t) 0 = Some m"
    using m t by simp
  from reverse_convert_match [OF this l] t show ?thesis
    by simp
qed

text \<open>
  C4. The symbols are tried in descending length; symbols of equal length keep the
  order of the keys of the inverse mapping. So, at any position where a known symbol
  is a prefix of the rest of the text, the symbol the loop matches is a known symbol,
  a prefix there, and at least as long as every known symbol that is a prefix there;
  the step emits the token chosen for that symbol and advances by its length: no
  shorter symbol and no single character is taken instead. From every position the
  rest of the output is the reverse conversion of the rest of the text, and the
  reverse conversion of a text that starts with a known symbol is the token of the
  longest known symbol at its start followed by the reverse conversion of what
  follows that symbol. U+FF9A U+0300 gives \<open>J\<close>, not \<open>SH\<close> and a combining mark.
\<close>

theorem C4_longest_match:
  "sorted_wrt (\<lambda>a b. length b \<le> length a) SYMBOLS_SORTED \<and>
   filter (\<lambda>x. length x = k) SYMBOLS_SORTED = filter (\<lambda>x. length x = k) (map fst REVERSE) \<and>
   (smb \<in> set SYMBOLS_SORTED \<and> startswith s smb i \<longrightarrow>
      (\<exists>m l. first_match s i = Some m \<and> m \<in> set SYMBOLS_SORTED \<and> startswith s m i \<and>
             length smb \<le> length m \<and>
             (\<forall>x \<in> set SYMBOLS_SORTED. startswith s x i \<longrightarrow> length x \<le> length m) \<and>
             choose_latin_for_symbol m preferences = Inr (Some l) \<and>
             reverse_step s preferences i out = Inr (i + length m, out @ [l]) \<and>
             reverse_loop s preferences i out =
               reverse_loop s preferences (i + length m) (out @ [l]))) \<and>
   (i \<le> length s \<longrightarrow>
      bindE (reverse_loop s preferences i out) (\<lambda>pieces. Inr (concat pieces)) =
      bindE (reverse_convert (drop i s) preferences) (\<lambda>x. Inr (concat out @ x))) \<and>
   (smb \<in> set SYMBOLS_SORTED \<and> startswith t smb 0 \<longrightarrow>
      (\<exists>m l. first_match t 0 = Some m \<and> m \<in> set SYMBOLS_SORTED \<and> startswith t m 0 \<and>
             length smb \<le> length m \<and>
             (\<forall>x \<in> set SYMBOLS_SORTED. startswith t x 0 \<longrightarrow> length x \<le> length m) \<and>
             choose_latin_for_symbol m preferences = Inr (Some l) \<and>
             reverse_convert t preferences =
               bindE (reverse_convert (drop (length m) t) preferences) (\<lambda>x. Inr (l @ x)))) \<and>
   reverse_convert [65434, 768] None = Inr (ascii ''J'') \<and>
   reverse_convert [65434, 86, 769, 86, 768, 86, 772, 86] None = Inr (ascii ''SHAOUV'')"
proof -
  have order: "sorted_wrt (\<lambda>a b. length b \<le> length a) SYMBOLS_SORTED"
    unfolding SYMBOLS_SORTED_def by (rule sorted_len_reverse_desc)
  have stable: "filter (\<lambda>x. length x = k) SYMBOLS_SORTED =
      filter (\<lambda>x. length x = k) (map fst REVERSE)"
    unfolding SYMBOLS_SORTED_def by (rule sorted_len_reverse_stable)
  have at: "\<exists>m l. first_match u j = Some m \<and> m \<in> set SYMBOLS_SORTED \<and> startswith u m j \<and>
             length smb \<le> length m \<and>
             (\<forall>x \<in> set SYMBOLS_SORTED. startswith u x j \<longrightarrow> length x \<le> length m) \<and>
             choose_latin_for_symbol m preferences = Inr (Some l) \<and>
             reverse_step u preferences j out = Inr (j + length m, out @ [l]) \<and>
             reverse_loop u preferences j out =
               reverse_loop u preferences (j + length m) (out @ [l])"
    if known: "smb \<in> set SYMBOLS_SORTED" and pre: "startswith u smb j" for u j
  proof -
    from first_match_known_prefix [OF known pre] obtain m where m: "first_match u j = Some m"
      by blast
    from reverse_loop_matched [OF m, of preferences out] obtain l where
      l: "choose_latin_for_symbol m preferences = Inr (Some l)"
        "reverse_step u preferences j out = Inr (j + length m, out @ [l])"
        "reverse_loop u preferences j out = reverse_loop u preferences (j + length m) (out @ [l])"
      by blast
    have longest: "\<forall>x \<in> set SYMBOLS_SORTED. startswith u x j \<longrightarrow> length x \<le> length m"
      using first_match_longest [OF m] by blast
    with known pre have "length smb \<le> length m" by blast
    with m l longest first_match_Some [OF m] show ?thesis by blast
  qed
  have loop: "smb \<in> set SYMBOLS_SORTED \<and> startswith s smb i \<longrightarrow>
      (\<exists>m l. first_match s i = Some m \<and> m \<in> set SYMBOLS_SORTED \<and> startswith s m i \<and>
             length smb \<le> length m \<and>
             (\<forall>x \<in> set SYMBOLS_SORTED. startswith s x i \<longrightarrow> length x \<le> length m) \<and>
             choose_latin_for_symbol m preferences = Inr (Some l) \<and>
             reverse_step s preferences i out = Inr (i + length m, out @ [l]) \<and>
             reverse_loop s preferences i out =
               reverse_loop s preferences (i + length m) (out @ [l]))"
    using at [of s i] by blast
  have rest: "i \<le> length s \<longrightarrow>
      bindE (reverse_loop s preferences i out) (\<lambda>pieces. Inr (concat pieces)) =
      bindE (reverse_convert (drop i s) preferences) (\<lambda>x. Inr (concat out @ x))"
    using reverse_loop_rest by blast
  have head: "smb \<in> set SYMBOLS_SORTED \<and> startswith t smb 0 \<longrightarrow>
      (\<exists>m l. first_match t 0 = Some m \<and> m \<in> set SYMBOLS_SORTED \<and> startswith t m 0 \<and>
             length smb \<le> length m \<and>
             (\<forall>x \<in> set SYMBOLS_SORTED. startswith t x 0 \<longrightarrow> length x \<le> length m) \<and>
             choose_latin_for_symbol m preferences = Inr (Some l) \<and>
             reverse_convert t preferences =
               bindE (reverse_convert (drop (length m) t) preferences) (\<lambda>x. Inr (l @ x)))"
  proof
    assume h: "smb \<in> set SYMBOLS_SORTED \<and> startswith t smb 0"
    from at [OF conjunct1 [OF h] conjunct2 [OF h]] obtain m l where
      ml: "first_match t 0 = Some m" "m \<in> set SYMBOLS_SORTED" "startswith t m 0"
        "length smb \<le> length m"
        "\<forall>x \<in> set SYMBOLS_SORTED. startswith t x 0 \<longrightarrow> length x \<le> length m"
        "choose_latin_for_symbol m preferences = Inr (Some l)"
      by blast
    from reverse_convert_head [OF ml(1) ml(6)] ml
    show "\<exists>m l. first_match t 0 = Some m \<and> m \<in> set SYMBOLS_SORTED \<and> startswith t m 0 \<and>
             length smb \<le> length m \<and>
             (\<forall>x \<in> set SYMBOLS_SORTED. startswith t x 0 \<longrightarrow> length x \<le> length m) \<and>
             choose_latin_for_symbol m preferences = Inr (Some l) \<and>
             reverse_convert t preferences =
               bindE (reverse_convert (drop (length m) t) preferences) (\<lambda>x. Inr (l @ x))"
      by blast
  qed
  have ch: "choose_latin_for_symbol [65434, 768] None = Inr (Some [74])"
    "choose_latin_for_symbol [65434] None = Inr (Some [83, 72])"
    "choose_latin_for_symbol [86, 769] None = Inr (Some [65])"
    "choose_latin_for_symbol [86, 768] None = Inr (Some [79])"
    "choose_latin_for_symbol [86, 772] None = Inr (Some [85])"
    "choose_latin_for_symbol [86] None = Inr (Some [86])"
    by (simp_all add: choose_latin_for_symbol_def dict_get_def REVERSE_eq str_index_def
          truthy_def)
  have fm: "first_match [65434, 768] 0 = Some [65434, 768]"
    "first_match [65434, 86, 769, 86, 768, 86, 772, 86] 0 = Some [65434]"
    "first_match [86, 769, 86, 768, 86, 772, 86] 0 = Some [86, 769]"
    "first_match [86, 768, 86, 772, 86] 0 = Some [86, 768]"
    "first_match [86, 772, 86] 0 = Some [86, 772]"
    "first_match [86] 0 = Some [86]"
    by (simp_all add: first_match_def SYMBOLS_SORTED_eq startswith_def)
  have j: "reverse_convert [65434, 768] None = Inr [74]"
    using reverse_convert_head [OF fm(1) ch(1)] by (simp add: reverse_convert_Nil)
  have v1: "reverse_convert [86] None = Inr [86]"
    using reverse_convert_head [OF fm(6) ch(6)] by (simp add: reverse_convert_Nil)
  have v2: "reverse_convert [86, 772, 86] None = Inr [85, 86]"
    using reverse_convert_head [OF fm(5) ch(5)] by (simp add: v1)
  have v3: "reverse_convert [86, 768, 86, 772, 86] None = Inr [79, 85, 86]"
    using reverse_convert_head [OF fm(4) ch(4)] by (simp add: v2)
  have v4: "reverse_convert [86, 769, 86, 768, 86, 772, 86] None = Inr [65, 79, 85, 86]"
    using reverse_convert_head [OF fm(3) ch(3)] by (simp add: v3)
  have v5: "reverse_convert [65434, 86, 769, 86, 768, 86, 772, 86] None =
      Inr [83, 72, 65, 79, 85, 86]"
    using reverse_convert_head [OF fm(2) ch(2)] by (simp add: v4)
  have vals: "reverse_convert [65434, 768] None = Inr (ascii ''J'')"
    "reverse_convert [65434, 86, 769, 86, 768, 86, 772, 86] None = Inr (ascii ''SHAOUV'')"
    using j v5 by (simp_all add: ascii_def)
  from order stable loop rest head vals show ?thesis
    by blast
qed

theorem C4_longest_match_witness:
  "[65434] \<in> set SYMBOLS_SORTED \<and> startswith [65434, 768, 65] [65434 :: nat] 0 \<and>
   0 \<le> length [65434 :: nat, 768, 65] \<and>
   first_match [65434, 768, 65] 0 = Some [65434, 768] \<and>
   reverse_step [65434, 768, 65] None 0 [] = Inr (0 + length [65434 :: nat, 768], [] @ [ascii ''J'']) \<and>
   reverse_convert [65434, 768, 65] None = Inr (ascii ''JX'')"
proof -
  have pre: "[65434] \<in> set SYMBOLS_SORTED \<and> startswith [65434, 768, 65] [65434 :: nat] 0"
    by (simp add: SYMBOLS_SORTED_eq startswith_def)
  have val: "first_match [65434, 768, 65] 0 = Some [65434, 768]"
    by (simp add: first_match_def SYMBOLS_SORTED_eq startswith_def)
  have chv: "choose_latin_for_symbol [65434, 768] None = Inr (Some (ascii ''J''))"
    by (simp add: choose_latin_for_symbol_def dict_get_def REVERSE_eq str_index_def ascii_def)
  have x: "reverse_convert [65] None = Inr [88]"
  proof -
    have "first_match ([65] @ []) 0 = Some [65]"
      by (simp add: first_match_def SYMBOLS_SORTED_eq startswith_def)
    moreover have "choose_latin_for_symbol [65] None = Inr (Some [88])"
      by (simp add: choose_latin_for_symbol_def dict_get_def REVERSE_eq str_index_def truthy_def)
    ultimately show ?thesis
      using reverse_convert_match [of "[65]" "[]" None "[88]"] by (simp add: reverse_convert_Nil)
  qed
  note inst = C4_longest_match [where smb = "[65434]" and s = "[65434, 768, 65]" and i = 0
      and preferences = None and out = "[]" and t = "[65434, 768, 65]"]
  from pre inst obtain m l where ml: "first_match [65434, 768, 65] 0 = Some m"
    "choose_latin_for_symbol m None = Inr (Some l)"
    "reverse_step [65434, 768, 65] None 0 [] = Inr (0 + length m, [] @ [l])"
    by blast
  from pre inst obtain m' l' where ml': "first_match [65434, 768, 65] 0 = Some m'"
    "choose_latin_for_symbol m' None = Inr (Some l')"
    "reverse_convert [65434, 768, 65] None =
       bindE (reverse_convert (drop (length m') [65434, 768, 65]) None) (\<lambda>x. Inr (l' @ x))"
    by blast
  from ml(1) val have m: "m = [65434, 768]" by simp
  with ml(2) chv have l: "l = ascii ''J''" by simp
  from ml'(1) val have m': "m' = [65434, 768]" by simp
  with ml'(2) chv have l': "l' = ascii ''J''" by simp
  have step: "reverse_step [65434, 768, 65] None 0 [] =
      Inr (0 + length [65434 :: nat, 768], [] @ [ascii ''J''])"
    using ml(3) unfolding m l .
  have conv: "reverse_convert [65434, 768, 65] None = Inr (ascii ''JX'')"
    using ml'(3) unfolding m' l' by (simp add: x ascii_def)
  from pre val step conv show ?thesis
    by simp
qed

lemma setdefault_append_nonempty:
  assumes "list_all (\<lambda>(k, vs). vs \<noteq> []) d"
  shows "list_all (\<lambda>(k, vs). vs \<noteq> []) (setdefault_append d symbol latin)"
  using assms by (induction d symbol latin rule: setdefault_append.induct) auto

lemma fold_setdefault_append_nonempty:
  assumes "list_all (\<lambda>(k, vs). vs \<noteq> []) d"
  shows "list_all (\<lambda>(k, vs). vs \<noteq> [])
           (fold (\<lambda>(latin, symbol) d. setdefault_append d symbol latin) fm d)"
  using assms
proof (induction fm arbitrary: d)
  case Nil
  then show ?case by simp
next
  case (Cons x fm)
  obtain latin symbol where x: "x = (latin, symbol)" by (cases x)
  have "list_all (\<lambda>(k, vs). vs \<noteq> []) (setdefault_append d symbol latin)"
    using Cons.prems by (rule setdefault_append_nonempty)
  from Cons.IH [OF this] x show ?case by simp
qed

lemma build_reverse_map_nonempty:
  "list_all (\<lambda>(k, vs). vs \<noteq> []) (build_reverse_map fm)"
  unfolding build_reverse_map_def by (rule fold_setdefault_append_nonempty) simp

text \<open>
  C8. The inverse of any table has no empty candidate list. The symbols tried by the
  reverse converter are the keys of the inverse mapping, and for each of them, and so
  for every symbol the loop matches, \<open>choose_latin_for_symbol\<close> returns a token and
  never \<open>None\<close>: the branch that would keep the symbol is not taken. The symbols with
  more than one candidate are U+30F2, \<open>Z\<close>, \<open>V\<close> and \<open>A\<close>, the keys of \<open>PREFERENCES\<close>.
\<close>

theorem C8_candidates_nonempty:
  "list_all (\<lambda>(k, vs). vs \<noteq> []) (build_reverse_map fm) \<and>
   set SYMBOLS_SORTED = set (map fst REVERSE) \<and>
   (smb \<in> set SYMBOLS_SORTED \<longrightarrow>
      (\<exists>options l. dict_get REVERSE smb = Some options \<and> options \<noteq> [] \<and>
         choose_latin_for_symbol smb preferences = Inr (Some l))) \<and>
   (first_match s i = Some smb \<longrightarrow>
      (\<exists>l. choose_latin_for_symbol smb preferences = Inr (Some l) \<and>
           reverse_step s preferences i out = Inr (i + length smb, out @ [l]))) \<and>
   map fst (filter (\<lambda>(k, vs). 1 < length vs) REVERSE) =
     [[12530], ascii ''Z'', ascii ''V'', ascii ''A''] \<and>
   set (map fst (filter (\<lambda>(k, vs). 1 < length vs) REVERSE)) = set (map fst PREFERENCES)"
proof -
  have keys: "set SYMBOLS_SORTED = set (map fst REVERSE)"
    by (simp add: SYMBOLS_SORTED_def sorted_len_reverse_def)
  have amb: "map fst (filter (\<lambda>(k, vs). 1 < length vs) REVERSE) =
     [[12530], ascii ''Z'', ascii ''V'', ascii ''A'']"
    by (simp add: REVERSE_eq ascii_def)
  have doc: "set (map fst (filter (\<lambda>(k, vs). 1 < length vs) REVERSE)) = set (map fst PREFERENCES)"
    unfolding amb by (auto simp: PREFERENCES_def ascii_def)
  show ?thesis
    using build_reverse_map_nonempty [of fm] keys amb doc
      SYMBOLS_SORTED_choice [of smb preferences]
      reverse_step_matched [of s i smb preferences out]
    by blast
qed

theorem C8_candidates_nonempty_witness:
  "[86, 769] \<in> set SYMBOLS_SORTED \<and>
   first_match [86, 769, 90] 0 = Some [86, 769] \<and>
   (\<exists>options l. dict_get REVERSE [86, 769] = Some options \<and> options \<noteq> [] \<and>
         choose_latin_for_symbol [86, 769] None = Inr (Some l)) \<and>
   (\<exists>l. choose_latin_for_symbol [86, 769] None = Inr (Some l) \<and>
        reverse_step [86, 769, 90] None 0 [] = Inr (0 + length [86 :: nat, 769], [] @ [l]))"
proof -
  have pre: "[86, 769] \<in> set SYMBOLS_SORTED"
    by (simp add: SYMBOLS_SORTED_eq)
  have pre': "first_match [86, 769, 90] 0 = Some [86, 769]"
    by (simp add: first_match_def SYMBOLS_SORTED_eq startswith_def)
  from pre pre' C8_candidates_nonempty [of "[]" "[86, 769]" None "[86, 769, 90]" 0 "[]"]
  show ?thesis by blast
qed

lemma reverse_step_total:
  assumes "i < length s"
  shows "\<exists>i' out'. reverse_step s p i out = Inr (i', out') \<and> i < i' \<and> i' \<le> length s"
proof (cases "first_match s i")
  case None
  with assms show ?thesis
    by (simp add: reverse_step_def str_index_def)
next
  case (Some m)
  from reverse_step_matched [OF Some, of p out]
  obtain l where st: "reverse_step s p i out = Inr (i + length m, out @ [l])" by blast
  have ne: "m \<noteq> []"
    using first_match_Some(1) [OF Some] by (rule SYMBOLS_SORTED_nonempty)
  have "i + length m \<le> length s"
    using first_match_Some(2) [OF Some] ne by (rule startswith_length)
  with st ne show ?thesis by simp
qed

lemma reverse_loop_total: "\<exists>r. reverse_loop s p i out = Inr r"
proof (induction s p i out rule: reverse_loop.induct)
  case (1 s p i out)
  show ?case
  proof (cases "i < length s")
    case False
    then show ?thesis by (simp add: reverse_loop.simps [of s p i out])
  next
    case True
    then obtain i' out' where st: "reverse_step s p i out = Inr (i', out')"
      using reverse_step_total by blast
    from "1.IH" [OF True st refl] obtain r where "reverse_loop s p i' out' = Inr r" ..
    with True st show ?thesis by (simp add: reverse_loop.simps [of s p i out])
  qed
qed

lemma reverse_convert_total: "\<exists>r. reverse_convert s p = Inr r"
proof -
  obtain r where "reverse_loop s p 0 [] = Inr r" using reverse_loop_total by blast
  then show ?thesis by (simp add: reverse_convert_def)
qed

text \<open>
  C9. For every text and every preferences argument (none, empty, partial or full)
  both converters return a string and raise no error, and every iteration of either
  loop, from a position inside the text, moves to a greater position that is at most
  the length of the text.
\<close>

theorem C9_total:
  "(\<exists>r. convert_text s = Inr r) \<and>
   (\<exists>r. reverse_convert t preferences = Inr r) \<and>
   (i < length s \<longrightarrow>
      (\<exists>i' out'. convert_step s i out = Inr (i', out') \<and> i < i' \<and> i' \<le> length s)) \<and>
   (j < length t \<longrightarrow>
      (\<exists>j' out'. reverse_step t preferences j out = Inr (j', out') \<and> j < j' \<and> j' \<le> length t))"
  using convert_text_total [of s] reverse_convert_total [of t preferences]
    convert_step_total [of i s out] reverse_step_total [of j t preferences out]
  by blast

theorem C9_total_witness:
  "0 < length (ascii ''Ch7'') \<and> 1 < length [86 :: nat, 86, 769] \<and>
   (\<exists>r. convert_text (ascii ''Ch7'') = Inr r) \<and>
   (\<exists>r. reverse_convert [86, 86, 769] (Some [(ascii ''V'', ascii ''W'')]) = Inr r) \<and>
   (\<exists>i' out'. convert_step (ascii ''Ch7'') 0 [] = Inr (i', out') \<and> 0 < i' \<and>
       i' \<le> length (ascii ''Ch7'')) \<and>
   (\<exists>j' out'. reverse_step [86, 86, 769] (Some [(ascii ''V'', ascii ''W'')]) 1 [] = Inr (j', out') \<and>
       1 < j' \<and> j' \<le> length [86 :: nat, 86, 769])"
proof -
  have pre: "0 < length (ascii ''Ch7'')" "1 < length [86 :: nat, 86, 769]"
    by (simp_all add: ascii_def)
  from pre C9_total [of "ascii ''Ch7''" "[86, 86, 769]" "Some [(ascii ''V'', ascii ''W'')]" 0 "[]" 1]
  show ?thesis by blast
qed

text \<open>
  C10. The ASCII characters \<open>7 A E F H K L T V X Z\<close> are symbols of the inverse mapping
  (and they are all its ASCII symbols), so the reverse converter rewrites them:
  \<open>7\<close> becomes \<open>G\<close> and \<open>H\<close> becomes \<open>E\<close>, with or without preferences.
\<close>

theorem C10_ascii_symbols:
  "list_all (\<lambda>c. dict_contains REVERSE [c]) (ascii ''7AEFHKLTVXZ'') \<and>
   filter (list_all (\<lambda>c. c < 128)) (map fst REVERSE) = map (\<lambda>c. [c]) (ascii ''TH7XZLFEVAK'') \<and>
   reverse_convert (ascii ''7'') None = Inr (ascii ''G'') \<and>
   reverse_convert (ascii ''7'') (Some []) = Inr (ascii ''G'') \<and>
   reverse_convert (ascii ''7'') (Some PREFERENCES) = Inr (ascii ''G'') \<and>
   reverse_convert (ascii ''H'') (Some []) = Inr (ascii ''E'')"
proof -
  have keys: "list_all (\<lambda>c. dict_contains REVERSE [c]) (ascii ''7AEFHKLTVXZ'')"
    by (simp add: dict_contains_def REVERSE_eq ascii_def)
  have all: "filter (list_all (\<lambda>c. c < 128)) (map fst REVERSE) =
      map (\<lambda>c. [c]) (ascii ''TH7XZLFEVAK'')"
    by (simp add: REVERSE_eq ascii_def)
  have m7: "first_match ([55] @ []) 0 = Some [55]" and mH: "first_match ([72] @ []) 0 = Some [72]"
    by (simp_all add: first_match_def SYMBOLS_SORTED_eq startswith_def)
  have c7: "choose_latin_for_symbol [55] p = Inr (Some [71])"
    and cH: "choose_latin_for_symbol [72] p = Inr (Some [69])" for p
    by (simp_all add: choose_latin_for_symbol_def dict_get_def REVERSE_eq str_index_def)
  have r7: "reverse_convert [55] p = Inr [71]" for p
    using reverse_convert_match [OF m7 c7, of p] by (simp add: reverse_convert_Nil)
  have rH: "reverse_convert [72] p = Inr [69]" for p
    using reverse_convert_match [OF mH cH, of p] by (simp add: reverse_convert_Nil)
  show ?thesis
    using keys all by (simp add: ascii_def r7 rH)
qed

section \<open>The round trip\<close>

lemma capital_cases:
  assumes "65 \<le> u" and "u \<le> (90 :: nat)"
  shows "u \<in> set (ascii ''ABCDEFGHIJKLMNOPQRSTUVWXYZ'')"
proof -
  have "u = 65 \<or> u = 66 \<or> u = 67 \<or> u = 68 \<or> u = 69 \<or> u = 70 \<or> u = 71 \<or> u = 72 \<or> u = 73
      \<or> u = 74 \<or> u = 75 \<or> u = 76 \<or> u = 77 \<or> u = 78 \<or> u = 79 \<or> u = 80 \<or> u = 81 \<or> u = 82
      \<or> u = 83 \<or> u = 84 \<or> u = 85 \<or> u = 86 \<or> u = 87 \<or> u = 88 \<or> u = 89 \<or> u = 90"
    using assms by arith
  then show ?thesis
    by (simp add: ascii_def)
qed

lemma letter_upper:
  assumes "is_latin_letter c"
  shows "upper_cp c \<in> set (ascii ''ABCDEFGHIJKLMNOPQRSTUVWXYZ'')"
proof -
  have "65 \<le> upper_cp c \<and> upper_cp c \<le> 90"
    using assms unfolding is_latin_letter_def upper_cp_def by auto
  then show ?thesis
    using capital_cases by blast
qed

lemma choose_unpreferred:
  assumes "\<not> truthy p" and "dict_get REVERSE smb = Some options" and "options \<noteq> []"
  shows "choose_latin_for_symbol smb p =
     Inr (Some (if length options = 1 then options ! 0 else sort options ! 0))"
  using assms by (simp add: choose_latin_for_symbol_def str_index_def)

lemma letter_symbol:
  assumes "u \<in> set (ascii ''ABCDEFGHIJKLMNOPQRSTUVWXYZ'')" and "\<not> truthy p"
  shows "\<exists>v. map_of MAPPING [u] = Some v \<and> v \<in> set SYMBOLS_SORTED \<and>
             choose_latin_for_symbol v p = Inr (Some [least_token u])"
proof -
  have ch: "choose_latin_for_symbol smb p =
     Inr (Some (if length options = 1 then options ! 0 else sort options ! 0))"
    if "map_of REVERSE smb = Some options" "options \<noteq> []" for smb options
    using that assms(2) by (simp add: choose_unpreferred dict_get_def)
  have "\<forall>u \<in> set (ascii ''ABCDEFGHIJKLMNOPQRSTUVWXYZ'').
      \<exists>v. map_of MAPPING [u] = Some v \<and> v \<in> set SYMBOLS_SORTED \<and>
          (\<exists>options. map_of REVERSE v = Some options \<and> options \<noteq> [] \<and>
             (if length options = 1 then options ! 0 else sort options ! 0) = [least_token u])"
    by (simp add: ascii_def MAPPING_def SYMBOLS_SORTED_eq REVERSE_eq least_token_def)
  with assms(1) ch show ?thesis
    by fastforce
qed

lemma symbol_head:
  assumes "v \<in> set SYMBOLS_SORTED"
  shows "v \<noteq> [] \<and> \<not> is_mark (hd v)"
  using assms by (auto simp: SYMBOLS_SORTED_eq is_mark_def)

lemma symbol_shape:
  assumes "m \<in> set SYMBOLS_SORTED"
  shows "length m = 1 \<or> (length m = 2 \<and> is_mark (m ! 1))"
  using assms by (auto simp: SYMBOLS_SORTED_eq is_mark_def)

lemma symbol_first_match:
  assumes known: "v \<in> set SYMBOLS_SORTED" and y: "y = [] \<or> \<not> is_mark (hd y)"
  shows "first_match (v @ y) 0 = Some v"
proof -
  have order: "sorted_wrt (\<lambda>a b. length b \<le> length a) SYMBOLS_SORTED"
    unfolding SYMBOLS_SORTED_def by (rule sorted_len_reverse_desc)
  have "startswith (v @ y) v 0"
    by (simp add: startswith_def)
  with find_sorted_wrt [OF order known, of "\<lambda>x. startswith (v @ y) x 0"]
  obtain m where m: "first_match (v @ y) 0 = Some m" "m \<in> set SYMBOLS_SORTED"
    "startswith (v @ y) m 0" "m = v \<or> length v \<le> length m"
    by (auto simp: first_match_def)
  have pre: "take (length m) (v @ y) = m"
    using m(3) by (simp add: startswith_def)
  have "m = v"
  proof (cases "length m = length v")
    case True
    with pre show ?thesis by simp
  next
    case False
    with m(4) have longer: "length v < length m" by auto
    have "v \<noteq> []" using symbol_head [OF known] by simp
    with longer symbol_shape [OF m(2)] symbol_shape [OF known]
    have lens: "length v = 1" "length m = 2" "is_mark (m ! 1)" by auto
    from lens(1) obtain a where v: "v = [a]" by (cases v) auto
    from pre lens(2) v have "m = a # take 1 y" by (simp add: numeral_2_eq_2)
    with lens(2) obtain c y' where "y = c # y'" "m = [a, c]"
      by (cases y) auto
    with lens(3) y show ?thesis by simp
  qed
  with m(1) show ?thesis by simp
qed

lemma round_trip_invariant:
  assumes letters: "\<forall>c \<in> set L. is_latin_letter c" and p: "\<not> truthy p"
  shows "\<exists>y. convert_text L = Inr y \<and> (y = [] \<or> \<not> is_mark (hd y)) \<and>
             reverse_convert y p = Inr (map least_token (str_upper L))"
  using letters
proof (induction L rule: length_induct)
  case (1 L)
  have IH: "\<exists>y. convert_text K = Inr y \<and> (y = [] \<or> \<not> is_mark (hd y)) \<and>
             reverse_convert y p = Inr (map least_token (str_upper K))"
    if "length K < length L" "\<forall>c \<in> set K. is_latin_letter c" for K
    using "1.IH" that by blast
  note letters = "1.prems"
  show ?case
  proof (cases L)
    case Nil
    then show ?thesis
      by (simp add: convert_text_Nil reverse_convert_Nil str_upper_def)
  next
    case L: (Cons a r)
    show ?thesis
    proof (cases "r = [] \<or> map_of MAPPING [upper_cp a, upper_cp (hd r)] = None")
      case True
      from letters L have "is_latin_letter a" by simp
      then obtain v where v: "map_of MAPPING [upper_cp a] = Some v"
        "v \<in> set SYMBOLS_SORTED"
        "choose_latin_for_symbol v p = Inr (Some [least_token (upper_cp a)])"
        using letter_symbol [OF letter_upper p] by blast
      have "length r < length L" "\<forall>c \<in> set r. is_latin_letter c"
        using letters L by simp_all
      from IH [OF this] obtain y where y: "convert_text r = Inr y"
        "y = [] \<or> \<not> is_mark (hd y)"
        "reverse_convert y p = Inr (map least_token (str_upper r))"
        by blast
      have fwd: "convert_text (a # r) = Inr (v @ y)"
        unfolding convert_text_single [OF True] y(1) v(1) by simp
      have fm: "first_match (v @ y) 0 = Some v"
        using v(2) y(2) by (rule symbol_first_match)
      have rv: "reverse_convert (v @ y) p =
          Inr ([least_token (upper_cp a)] @ map least_token (str_upper r))"
        unfolding reverse_convert_match [OF fm v(3)] y(3) by simp
      have hd: "v @ y = [] \<or> \<not> is_mark (hd (v @ y))"
        using symbol_head [OF v(2)] by simp
      have "map least_token (str_upper L) =
          [least_token (upper_cp a)] @ map least_token (str_upper r)"
        unfolding L str_upper_def by simp
      with fwd rv hd L show ?thesis
        by metis
    next
      case False
      then obtain b r2 v where r: "r = b # r2"
        and v: "map_of MAPPING [upper_cp a, upper_cp b] = Some v"
        by (cases r) auto
      from v have dg: "(upper_cp a = 67 \<and> upper_cp b = 72 \<and> v = [84]) \<or>
          (upper_cp a = 83 \<and> upper_cp b = 72 \<and> v = [65434])"
        by (simp add: MAPPING_digraph_iff)
      have known: "v \<in> set SYMBOLS_SORTED"
        using dg by (auto simp: SYMBOLS_SORTED_eq)
      have "choose_latin_for_symbol [84] p = Inr (Some [67, 72])"
        "choose_latin_for_symbol [65434] p = Inr (Some [83, 72])"
        by (simp_all add: choose_latin_for_symbol_def dict_get_def REVERSE_eq str_index_def)
      with dg have ch: "choose_latin_for_symbol v p =
          Inr (Some [least_token (upper_cp a), least_token (upper_cp b)])"
        by (auto simp: least_token_def)
      have "length r2 < length L" "\<forall>c \<in> set r2. is_latin_letter c"
        using letters L r by simp_all
      from IH [OF this] obtain y where y: "convert_text r2 = Inr y"
        "y = [] \<or> \<not> is_mark (hd y)"
        "reverse_convert y p = Inr (map least_token (str_upper r2))"
        by blast
      have fwd: "convert_text (a # b # r2) = Inr (v @ y)"
        unfolding convert_text_digraph [OF v] y(1) by simp
      have fm: "first_match (v @ y) 0 = Some v"
        using known y(2) by (rule symbol_first_match)
      have rv: "reverse_convert (v @ y) p =
          Inr ([least_token (upper_cp a), least_token (upper_cp b)]
               @ map least_token (str_upper r2))"
        unfolding reverse_convert_match [OF fm ch] y(3) by simp
      have hd: "v @ y = [] \<or> \<not> is_mark (hd (v @ y))"
        using symbol_head [OF known] by simp
      have "map least_token (str_upper L) =
          [least_token (upper_cp a), least_token (upper_cp b)]
               @ map least_token (str_upper r2)"
        unfolding L r str_upper_def by simp
      with fwd rv hd L r show ?thesis
        by metis
    qed
  qed
qed

lemma round_trip_letters:
  assumes "\<forall>c \<in> set L. is_latin_letter c" and "\<not> truthy preferences"
  shows "round_trip L preferences = Inr (map least_token (str_upper L))"
proof -
  from round_trip_invariant [OF assms] obtain y where
    "convert_text L = Inr y" "reverse_convert y preferences = Inr (map least_token (str_upper L))"
    by blast
  then show ?thesis
    by (simp add: round_trip_def)
qed

lemma round_trip_default_K:
  assumes "u = 67 \<or> u = 75 \<or> u = 81"
  shows "round_trip [u] (Some PREFERENCES) = Inr [75]"
proof -
  have "convert_text [u] = bindE (convert_text [])
      (\<lambda>x. Inr ((case map_of MAPPING [upper_cp u] of Some v \<Rightarrow> v | None \<Rightarrow> [u]) @ x))"
    by (rule convert_text_single) simp
  moreover have "map_of MAPPING [upper_cp u] = Some [12530]"
    using assms by (elim disjE) (simp_all add: upper_cp_def MAPPING_def ascii_def)
  ultimately have fwd: "convert_text [u] = Inr [12530]"
    by (simp add: convert_text_Nil)
  have fm: "first_match ([12530] @ []) 0 = Some [12530]"
    by (simp add: first_match_def SYMBOLS_SORTED_eq startswith_def)
  have ch: "choose_latin_for_symbol [12530] (Some PREFERENCES) = Inr (Some [75])"
    by (simp add: choose_latin_for_symbol_def dict_get_def REVERSE_eq truthy_def
          prefs_contains_def prefs_getitem_def dict_contains_def dict_getitem_def
          PREFERENCES_def ascii_def)
  have "reverse_convert [12530] (Some PREFERENCES) = Inr [75]"
    using reverse_convert_match [OF fm ch] by (simp add: reverse_convert_Nil)
  with fwd show ?thesis
    by (simp add: round_trip_def)
qed

text \<open>
  C1, as amended. Without preferences (\<open>None\<close> or the empty dict) the round trip of a
  text of ASCII letters is the upper-cased text in which each letter that shares its
  symbol is replaced by the smallest letter of that symbol: \<open>K\<close> and \<open>Q\<close> by \<open>C\<close>,
  \<open>R\<close> by \<open>L\<close>, \<open>W\<close> by \<open>V\<close>, \<open>Z\<close> by \<open>X\<close>. So \<open>C\<close>, \<open>K\<close> and \<open>Q\<close> come back as \<open>C\<close>;
  they come back as \<open>K\<close> with the default table \<open>PREFERENCES\<close>.
\<close>

theorem C1_round_trip:
  "((\<forall>c \<in> set L. is_latin_letter c) \<and> \<not> truthy preferences \<longrightarrow>
      round_trip L preferences = Inr (map least_token (str_upper L))) \<and>
   round_trip (ascii ''C'') (Some PREFERENCES) = Inr (ascii ''K'') \<and>
   round_trip (ascii ''K'') (Some PREFERENCES) = Inr (ascii ''K'') \<and>
   round_trip (ascii ''Q'') (Some PREFERENCES) = Inr (ascii ''K'')"
proof -
  have general: "(\<forall>c \<in> set L. is_latin_letter c) \<and> \<not> truthy preferences \<longrightarrow>
      round_trip L preferences = Inr (map least_token (str_upper L))"
    using round_trip_letters by blast
  have "round_trip [67] (Some PREFERENCES) = Inr [75]"
    "round_trip [75] (Some PREFERENCES) = Inr [75]"
    "round_trip [81] (Some PREFERENCES) = Inr [75]"
    by (rule round_trip_default_K, simp)+
  then have "round_trip (ascii ''C'') (Some PREFERENCES) = Inr (ascii ''K'')"
    "round_trip (ascii ''K'') (Some PREFERENCES) = Inr (ascii ''K'')"
    "round_trip (ascii ''Q'') (Some PREFERENCES) = Inr (ascii ''K'')"
    by (simp_all add: ascii_def)
  with general show ?thesis
    by blast
qed

theorem C1_round_trip_witness:
  "list_all is_latin_letter (ascii ''Check'') \<and> \<not> truthy (Some []) \<and>
   round_trip (ascii ''Check'') (Some []) = Inr (ascii ''CHECC'')"
proof -
  have pre: "(\<forall>c \<in> set (ascii ''Check''). is_latin_letter c) \<and> \<not> truthy (Some [])"
    by (simp add: ascii_def is_latin_letter_def truthy_def)
  have "map least_token (str_upper (ascii ''Check'')) = ascii ''CHECC''"
    by (simp add: ascii_def str_upper_def upper_cp_def least_token_def)
  with pre C1_round_trip [of "ascii ''Check''" "Some []"] show ?thesis
    by (simp add: list_all_iff)
qed

text \<open>C1 as stated fails: without preferences \<open>K\<close> comes back as \<open>C\<close>, not as \<open>K\<close>.\<close>

theorem C1_counterexample:
  "round_trip (ascii ''K'') (Some []) = Inr (ascii ''C'') \<and>
   round_trip (ascii ''K'') (Some []) \<noteq> Inr (ascii ''K'')"
proof -
  have pre: "\<forall>c \<in> set (ascii ''K''). is_latin_letter c" "\<not> truthy (Some [])"
    by (simp_all add: ascii_def is_latin_letter_def truthy_def)
  have "map least_token (str_upper (ascii ''K'')) = ascii ''C''"
    by (simp add: ascii_def str_upper_def upper_cp_def least_token_def)
  with round_trip_letters [OF pre]
  have "round_trip (ascii ''K'') (Some []) = Inr (ascii ''C'')"
    by simp
  then show ?thesis
    by (simp add: ascii_def)
qed

end
